theory Spec2Isabelle
  imports Complex_Main "HOL-Library.AList"
begin

section \<open>Graph store (Graph.hpp, Graph.cpp, Edge.hpp)\<close>

text \<open>
  Modelled from the spec: \<^verbatim>\<open>Node.hpp\<close> is not among the sources. A node has an opaque
  string key and a display name; \<^verbatim>\<open>getId()\<close> returns the key.
\<close>

record Node =
  node_id :: string
  node_name :: string

text \<open>A \<^verbatim>\<open>std::shared_ptr\<close> is either null (\<open>None\<close>) or refers to an object.\<close>

type_synonym NodePtr = "Node option"

text \<open>
  \<^verbatim>\<open>Edge\<close> of Edge.hpp. The weights are C++ doubles; they are idealised here as real
  numbers (exact arithmetic, no NaN, no infinite weight).
\<close>

record Edge =
  edge_id :: string
  edge_source :: NodePtr
  edge_destination :: NodePtr
  weight :: real
  timeWeight :: real
  costWeight :: real

type_synonym EdgePtr = "Edge option"

text \<open>\<^verbatim>\<open>edge->getSource()->getId()\<close> and \<^verbatim>\<open>edge->getDestination()->getId()\<close>. The
  code dereferences without a test; every edge stored in a graph has both endpoints
  (see \<open>graph_inv\<close>).\<close>

definition sourceId :: "Edge \<Rightarrow> string" where
  "sourceId e = node_id (the (edge_source e))"

definition destId :: "Edge \<Rightarrow> string" where
  "destId e = node_id (the (edge_destination e))"

text \<open>
  The two \<^verbatim>\<open>std::unordered_map\<close>s are association lists with distinct keys; the order
  of the list stands for the (unspecified) iteration order of the map.
\<close>

record Graph =
  nodes :: "(string \<times> Node) list"
  adjacencyList :: "(string \<times> Edge list) list"
  edges :: "Edge list"

definition emptyGraph :: Graph where
  "emptyGraph = \<lparr>nodes = [], adjacencyList = [], edges = []\<rparr>"

definition getNode :: "Graph \<Rightarrow> string \<Rightarrow> NodePtr" where
  "getNode g nodeId = map_of (nodes g) nodeId"

definition getOutgoingEdges :: "Graph \<Rightarrow> string \<Rightarrow> Edge list" where
  "getOutgoingEdges g nodeId =
     (case map_of (adjacencyList g) nodeId of Some es \<Rightarrow> es | None \<Rightarrow> [])"

definition getAllNodes :: "Graph \<Rightarrow> Node list" where
  "getAllNodes g = map snd (nodes g)"

definition getAllEdges :: "Graph \<Rightarrow> Edge list" where
  "getAllEdges g = edges g"

definition getNodeCount :: "Graph \<Rightarrow> nat" where
  "getNodeCount g = length (nodes g)"

definition addNode :: "NodePtr \<Rightarrow> Graph \<Rightarrow> bool \<times> Graph" where
  "addNode node g =
     (case node of
        None \<Rightarrow> (False, g)
      | Some n \<Rightarrow>
          if map_of (nodes g) (node_id n) \<noteq> None then (False, g)
          else (True, g\<lparr>nodes := AList.update (node_id n) n (nodes g),
                         adjacencyList := AList.update (node_id n) [] (adjacencyList g)\<rparr>))"

definition removeNode :: "string \<Rightarrow> Graph \<Rightarrow> bool \<times> Graph" where
  "removeNode nodeId g =
     (if map_of (nodes g) nodeId = None then (False, g)
      else (True,
        g\<lparr>edges := filter (\<lambda>e. \<not> (sourceId e = nodeId \<or> destId e = nodeId)) (edges g),
          adjacencyList :=
            AList.map_ran (\<lambda>k es. filter (\<lambda>e. \<not> destId e = nodeId) es)
              (AList.delete nodeId (adjacencyList g)),
          nodes := AList.delete nodeId (nodes g)\<rparr>))"

definition addEdge :: "EdgePtr \<Rightarrow> Graph \<Rightarrow> bool \<times> Graph" where
  "addEdge edge g =
     (case edge of
        None \<Rightarrow> (False, g)
      | Some e \<Rightarrow>
          if edge_source e = None \<or> edge_destination e = None then (False, g)
          else if map_of (nodes g) (sourceId e) = None \<or> map_of (nodes g) (destId e) = None
            then (False, g)
          else if find (\<lambda>existingEdge. edge_id existingEdge = edge_id e) (edges g) \<noteq> None
            then (False, g)
          else (True,
            g\<lparr>edges := edges g @ [e],
              adjacencyList :=
                AList.map_default (sourceId e) [e] (\<lambda>es. es @ [e]) (adjacencyList g)\<rparr>))"

definition removeEdge :: "string \<Rightarrow> Graph \<Rightarrow> bool \<times> Graph" where
  "removeEdge edgeId g =
     (case find (\<lambda>e. edge_id e = edgeId) (edges g) of
        None \<Rightarrow> (False, g)
      | Some edge \<Rightarrow> (True,
          g\<lparr>adjacencyList :=
              AList.map_default (sourceId edge) []
                (filter (\<lambda>e. \<not> edge_id e = edgeId)) (adjacencyList g),
            edges := remove1 edge (edges g)\<rparr>))"

definition clear :: "Graph \<Rightarrow> Graph" where
  "clear g = g\<lparr>nodes := [], adjacencyList := [], edges := []\<rparr>"

text \<open>A caller's sequence of mutations, each applied to the store left by the previous one.\<close>

datatype operation =
  AddNode NodePtr | RemoveNode string | AddEdge EdgePtr | RemoveEdge string | Clear

fun apply_op :: "operation \<Rightarrow> Graph \<Rightarrow> bool \<times> Graph" where
  "apply_op (AddNode n) g = addNode n g"
| "apply_op (RemoveNode k) g = removeNode k g"
| "apply_op (AddEdge e) g = addEdge e g"
| "apply_op (RemoveEdge k) g = removeEdge k g"
| "apply_op Clear g = (True, clear g)"

fun run_ops :: "operation list \<Rightarrow> Graph \<Rightarrow> Graph" where
  "run_ops [] g = g"
| "run_ops (x # xs) g = run_ops xs (snd (apply_op x g))"

text \<open>The invariants of the store (spec, section 3), on the representation.\<close>

definition graph_inv :: "Graph \<Rightarrow> bool" where
  "graph_inv g \<longleftrightarrow>
     distinct (map fst (nodes g)) \<and>
     distinct (map fst (adjacencyList g)) \<and>
     set (map fst (adjacencyList g)) = set (map fst (nodes g)) \<and>
     (\<forall>p \<in> set (nodes g). node_id (snd p) = fst p) \<and>
     distinct (map edge_id (edges g)) \<and>
     (\<forall>e \<in> set (edges g). edge_source e \<noteq> None \<and> edge_destination e \<noteq> None \<and>
        sourceId e \<in> set (map fst (nodes g)) \<and> destId e \<in> set (map fst (nodes g))) \<and>
     (\<forall>p \<in> set (adjacencyList g). snd p = filter (\<lambda>e. sourceId e = fst p) (edges g))"


section \<open>Path engine (PathFinder.hpp, PathFinder.cpp)\<close>

record PathResult =
  path :: "string list"
  totalDistance :: real
  totalTime :: real
  totalCost :: real
  found :: bool

text \<open>The constructor \<^verbatim>\<open>PathResult()\<close>: the not-found result.\<close>

definition notFound :: PathResult where
  "notFound = \<lparr>path = [], totalDistance = 0, totalTime = 0, totalCost = 0, found = False\<rparr>"

text \<open>
  \<^verbatim>\<open>enum class OptimizationMode\<close> has the underlying type \<^verbatim>\<open>int\<close>, and a
  \<^verbatim>\<open>static_cast\<close> gives it any value of that type; the mode is modelled by this value,
  the enumerators by their positions.
\<close>

type_synonym OptimizationMode = int

definition DISTANCE :: OptimizationMode where "DISTANCE = 0"
definition TIME :: OptimizationMode where "TIME = 1"
definition COST :: OptimizationMode where "COST = 2"
definition BALANCED :: OptimizationMode where "BALANCED = 3"

definition getEdgeWeight :: "Edge \<Rightarrow> OptimizationMode \<Rightarrow> real" where
  "getEdgeWeight edge mode =
     (if mode = DISTANCE then weight edge
      else if mode = TIME then timeWeight edge
      else if mode = COST then costWeight edge
      else if mode = BALANCED then
        (let distNorm = weight edge / 100;
             timeNorm = timeWeight edge / 5;
             costNorm = costWeight edge / 50
         in (distNorm + timeNorm + costNorm) / 3)
      else weight edge)"

text \<open>What can stop a query other than a result.\<close>

datatype fault =
  UnsupportedMode  \<comment> \<open>the hard fault the specification asks of the weight function\<close>
| OutOfRange       \<comment> \<open>an element of an empty \<^verbatim>\<open>std::vector\<close> is read (undefined behaviour)\<close>
| MissingMember    \<comment> \<open>a member that a JSON object does not have is read with \<^verbatim>\<open>operator[]\<close>\<close>

text \<open>
  The weight function as section 4.2 and section 7 of the specification word it: the
  four enumerated modes, and a hard fault for any other mode. It is compared with
  \<open>getEdgeWeight\<close>, which is the code.
\<close>

definition getEdgeWeight_spec :: "Edge \<Rightarrow> OptimizationMode \<Rightarrow> fault + real" where
  "getEdgeWeight_spec edge mode =
     (if mode = DISTANCE then Inr (weight edge)
      else if mode = TIME then Inr (timeWeight edge)
      else if mode = COST then Inr (costWeight edge)
      else if mode = BALANCED then
        Inr ((weight edge / 100 + timeWeight edge / 5 + costWeight edge / 50) / 3)
      else Inl UnsupportedMode)"

text \<open>
  An entry of the distance table: a finite value or
  \<^verbatim>\<open>std::numeric_limits<double>::infinity()\<close>.
\<close>

datatype dbl = Val real | PosInf

fun dbl_less :: "dbl \<Rightarrow> dbl \<Rightarrow> bool" where
  "dbl_less (Val a) (Val b) = (a < b)"
| "dbl_less (Val a) PosInf = True"
| "dbl_less PosInf b = False"

fun dbl_plus :: "dbl \<Rightarrow> dbl \<Rightarrow> dbl" where
  "dbl_plus (Val a) (Val b) = Val (a + b)"
| "dbl_plus a b = PosInf"

record NodeDistance =
  nodeId :: string
  distance :: real

record SearchState =
  distances :: "string \<rightharpoonup> dbl"
  predecessors :: "string \<rightharpoonup> string"
  pq :: "NodeDistance list"

text \<open>
  \<^verbatim>\<open>distances[k]\<close>: \<^verbatim>\<open>operator[]\<close> of the unordered map gives 0.0 for a key that has
  no entry (and enters it; in \<open>findShortestPath\<close> nothing but \<^verbatim>\<open>operator[]\<close> reads the
  table, so the entry itself is not observable there).
\<close>

definition distanceAt :: "(string \<rightharpoonup> dbl) \<Rightarrow> string \<Rightarrow> dbl" where
  "distanceAt d k = (case d k of Some x \<Rightarrow> x | None \<Rightarrow> Val 0)"

definition initDistances :: "Graph \<Rightarrow> string \<Rightarrow> (string \<rightharpoonup> dbl)" where
  "initDistances g source =
     fold (\<lambda>node d. d(node_id node \<mapsto> (if node_id node = source then Val 0 else PosInf)))
       (getAllNodes g) Map.empty"

text \<open>The body of the loop over the outgoing edges of the current node.\<close>

definition relaxEdge :: "OptimizationMode \<Rightarrow> NodeDistance \<Rightarrow> SearchState \<Rightarrow> Edge \<Rightarrow> SearchState" where
  "relaxEdge mode current st edge =
     (let neighborId = destId edge;
          w = getEdgeWeight edge mode;
          dist = distance current + w
      in if dbl_less (Val dist) (distanceAt (distances st) neighborId)
         then st\<lparr>distances := (distances st)(neighborId \<mapsto> Val dist),
                 predecessors := (predecessors st)(neighborId \<mapsto> nodeId current),
                 pq := pq st @ [\<lparr>nodeId = neighborId, distance = dist\<rparr>]\<rparr>
         else st)"

text \<open>
  \<^verbatim>\<open>std::priority_queue\<close> with \<^verbatim>\<open>std::greater\<close> is library code: the queue is the
  list of its entries, and \<^verbatim>\<open>top()\<close> is an entry of least distance. Which one of
  several least entries the heap returns is not fixed by the program, so the position
  is asked of a parameter \<open>pick\<close>; \<open>valid_pick\<close> says that it answers with a least entry.
\<close>

definition valid_pick :: "(NodeDistance list \<Rightarrow> nat) \<Rightarrow> bool" where
  "valid_pick pick \<longleftrightarrow>
     (\<forall>q. q \<noteq> [] \<longrightarrow>
        pick q < length q \<and> (\<forall>nd \<in> set q. distance (q ! pick q) \<le> distance nd))"

text \<open>One such policy: the first of the least entries.\<close>

fun firstMin :: "NodeDistance list \<Rightarrow> nat" where
  "firstMin [] = 0"
| "firstMin (x # xs) =
     (if \<forall>y \<in> set xs. distance x \<le> distance y then 0 else Suc (firstMin xs))"

text \<open>
  The \<^verbatim>\<open>while (!pq.empty())\<close> loop. It need not end (a cycle of negative score is
  relaxed for ever), so it is a partial function: \<open>None\<close> is a loop that does not return.
\<close>

partial_function (option) searchLoop ::
  "(NodeDistance list \<Rightarrow> nat) \<Rightarrow> Graph \<Rightarrow> string \<Rightarrow> OptimizationMode \<Rightarrow>
     SearchState \<Rightarrow> SearchState option" where
  "searchLoop pick g destination mode st =
     (if pq st = [] then Some st
      else
        let i = pick (pq st);
            current = pq st ! i;
            st1 = st\<lparr>pq := take i (pq st) @ drop (Suc i) (pq st)\<rparr>
        in if nodeId current = destination then Some st1
           else if dbl_less (distanceAt (distances st1) (nodeId current)) (Val (distance current))
             then searchLoop pick g destination mode st1
           else searchLoop pick g destination mode
                  (foldl (relaxEdge mode current) st1 (getOutgoingEdges g (nodeId current))))"

text \<open>
  The loop of \<open>reconstructPath\<close>, with the vector built so far. A missing predecessor
  clears the vector and returns it at once; reversing the empty vector changes nothing,
  so both exits are followed by the reversal here. A cycle of predecessors that misses
  the source is followed for ever.
\<close>

partial_function (option) reconstructLoop ::
  "(string \<rightharpoonup> string) \<Rightarrow> string \<Rightarrow> string \<Rightarrow> string list \<Rightarrow> string list option" where
  "reconstructLoop preds source at' p =
     (if at' = source then Some (p @ [at'])
      else case preds at' of
             None \<Rightarrow> Some []
           | Some previous \<Rightarrow> reconstructLoop preds source previous (p @ [at']))"

declare searchLoop.simps [code]
declare reconstructLoop.simps [code]

definition reconstructPath ::
  "(string \<rightharpoonup> string) \<Rightarrow> string \<Rightarrow> string \<Rightarrow> string list option" where
  "reconstructPath preds source destination =
     map_option rev (reconstructLoop preds source destination [])"

text \<open>The loop that walks the path again and adds the raw weights (lines 88 to 105).\<close>

fun accumulateTotals :: "Graph \<Rightarrow> string list \<Rightarrow> real \<times> real \<times> real \<Rightarrow> real \<times> real \<times> real" where
  "accumulateTotals g (currentId # nextId # rest) (d, t, c) =
     (case find (\<lambda>edge. destId edge = nextId) (getOutgoingEdges g currentId) of
        Some edge \<Rightarrow>
          accumulateTotals g (nextId # rest)
            (d + weight edge, t + timeWeight edge, c + costWeight edge)
      | None \<Rightarrow> accumulateTotals g (nextId # rest) (d, t, c))"
| "accumulateTotals g p acc = acc"

text \<open>
  Lines 80 to 114 of \<open>findShortestPath\<close>: reconstruction, totals, result. On an empty
  path the bound \<^verbatim>\<open>path.size() - 1\<close> of the loop wraps around and \<^verbatim>\<open>path[0]\<close> is read.
\<close>

definition buildResult ::
  "Graph \<Rightarrow> (string \<rightharpoonup> string) \<Rightarrow> string \<Rightarrow> string \<Rightarrow> (fault + PathResult) option" where
  "buildResult g preds source destination =
     (case reconstructPath preds source destination of
        None \<Rightarrow> None
      | Some p \<Rightarrow>
          if p = [] then Some (Inl OutOfRange)
          else (case accumulateTotals g p (0, 0, 0) of
                  (d, t, c) \<Rightarrow>
                    Some (Inr \<lparr>path = p, totalDistance = d, totalTime = t, totalCost = c,
                               found = True\<rparr>)))"

definition initialState :: "Graph \<Rightarrow> string \<Rightarrow> SearchState" where
  "initialState g source =
     \<lparr>distances = initDistances g source, predecessors = Map.empty,
      pq = [\<lparr>nodeId = source, distance = 0\<rparr>]\<rparr>"

definition findShortestPath ::
  "(NodeDistance list \<Rightarrow> nat) \<Rightarrow> Graph \<Rightarrow> string \<Rightarrow> string \<Rightarrow> OptimizationMode \<Rightarrow>
     (fault + PathResult) option" where
  "findShortestPath pick g source destination mode =
     (if getNode g source = None \<or> getNode g destination = None then Some (Inr notFound)
      else case searchLoop pick g destination mode (initialState g source) of
             None \<Rightarrow> None
           | Some st \<Rightarrow>
               if distanceAt (distances st) destination = PosInf then Some (Inr notFound)
               else buildResult g (predecessors st) source destination)"


subsection \<open>The all-destinations query\<close>

text \<open>
  Here the distance table is returned and iterated over, so it is an association list:
  \<open>touch\<close> is the entry that \<^verbatim>\<open>operator[]\<close> makes for a key without one.
\<close>

definition touch :: "string \<Rightarrow> (string \<times> dbl) list \<Rightarrow> (string \<times> dbl) list" where
  "touch k al = (if map_of al k = None then al @ [(k, Val 0)] else al)"

definition valueAt :: "(string \<times> dbl) list \<Rightarrow> string \<Rightarrow> dbl" where
  "valueAt al k = (case map_of al k of Some x \<Rightarrow> x | None \<Rightarrow> Val 0)"

definition initDistanceList :: "Graph \<Rightarrow> string \<Rightarrow> (string \<times> dbl) list" where
  "initDistanceList g source =
     fold (\<lambda>node d. AList.update (node_id node)
                      (if node_id node = source then Val 0 else PosInf) d)
       (getAllNodes g) []"

text \<open>The scan for the unprocessed node of least distance (lines 141 to 152).\<close>

definition scanMin :: "string list \<Rightarrow> (string \<times> dbl) list \<Rightarrow> dbl \<times> string" where
  "scanMin processed dists =
     foldl (\<lambda>(minDist, minNode) (k, dist).
              if k \<notin> set processed \<and> dbl_less dist minDist then (dist, k)
              else (minDist, minNode))
       (PosInf, []) dists"

text \<open>The body of the loop over the outgoing edges of \<open>minNode\<close> (lines 163 to 174).\<close>

definition updateNeighbor ::
  "OptimizationMode \<Rightarrow> string \<Rightarrow> string list \<Rightarrow> (string \<times> dbl) list \<Rightarrow> Edge \<Rightarrow>
     (string \<times> dbl) list" where
  "updateNeighbor mode minNode processed dists edge =
     (let neighborId = destId edge
      in if neighborId \<in> set processed then dists
         else
           let w = getEdgeWeight edge mode;
               d1 = touch minNode dists;
               dist = dbl_plus (valueAt d1 minNode) (Val w);
               d2 = touch neighborId d1
           in if dbl_less dist (valueAt d2 neighborId)
              then AList.update neighborId dist d2 else d2)"

lemma scanMin_unprocessed:
  "scanMin processed dists = (m, n) \<Longrightarrow> m \<noteq> PosInf \<Longrightarrow> n \<notin> set processed"
proof -
  have "\<And>acc. foldl (\<lambda>(minDist, minNode) (k, dist).
              if k \<notin> set processed \<and> dbl_less dist minDist then (dist, k)
              else (minDist, minNode)) acc dists = (m, n) \<Longrightarrow>
          (fst acc \<noteq> PosInf \<longrightarrow> snd acc \<notin> set processed) \<Longrightarrow>
          m \<noteq> PosInf \<longrightarrow> n \<notin> set processed"
  proof (induction dists)
    case Nil
    then show ?case by auto
  next
    case (Cons a dists)
    show ?case
      by (rule Cons.IH [OF Cons.prems(1) [simplified]])
         (use Cons.prems(2) in \<open>auto split: prod.splits\<close>)
  qed
  then show "scanMin processed dists = (m, n) \<Longrightarrow> m \<noteq> PosInf \<Longrightarrow> n \<notin> set processed"
    unfolding scanMin_def by fastforce
qed

text \<open>
  The \<^verbatim>\<open>while (processed.size() < graph_.getNodeCount())\<close> loop; \<open>processed\<close> is the
  unordered set, kept as a list without repetitions.
\<close>

function pathsLoop ::
  "Graph \<Rightarrow> OptimizationMode \<Rightarrow> string list \<Rightarrow> (string \<times> dbl) list \<Rightarrow> (string \<times> dbl) list" where
  "pathsLoop g mode processed dists =
     (if length processed < getNodeCount g then
        (case scanMin processed dists of
           (minDist, minNode) \<Rightarrow>
             if minDist = PosInf then dists
             else pathsLoop g mode (List.insert minNode processed)
                    (foldl (updateNeighbor mode minNode (List.insert minNode processed)) dists
                       (getOutgoingEdges g minNode)))
      else dists)"
  by pat_completeness auto
termination
  apply (relation "measure (\<lambda>(g, mode, processed, dists). getNodeCount g - length processed)")
   apply simp
  apply (auto dest!: sym [THEN scanMin_unprocessed])
  done

definition findShortestPaths ::
  "Graph \<Rightarrow> string \<Rightarrow> OptimizationMode \<Rightarrow> (string \<times> dbl) list" where
  "findShortestPaths g source mode =
     (if getNode g source = None then []
      else pathsLoop g mode [] (initDistanceList g source))"

section \<open>The demonstration network of the README (scenario A of the specification)\<close>

definition nodeNYC :: Node where "nodeNYC = \<lparr>node_id = ''NYC'', node_name = ''New York City''\<rparr>"
definition nodeBOS :: Node where "nodeBOS = \<lparr>node_id = ''BOS'', node_name = ''Boston''\<rparr>"
definition nodePHL :: Node where "nodePHL = \<lparr>node_id = ''PHL'', node_name = ''Philadelphia''\<rparr>"
definition nodeDC :: Node where "nodeDC = \<lparr>node_id = ''DC'', node_name = ''Washington DC''\<rparr>"

definition edgeNYC_BOS :: Edge where
  "edgeNYC_BOS = \<lparr>edge_id = ''NYC-BOS'', edge_source = Some nodeNYC,
     edge_destination = Some nodeBOS, weight = 306, timeWeight = 9 / 2, costWeight = 50\<rparr>"
definition edgeNYC_PHL :: Edge where
  "edgeNYC_PHL = \<lparr>edge_id = ''NYC-PHL'', edge_source = Some nodeNYC,
     edge_destination = Some nodePHL, weight = 153, timeWeight = 2, costWeight = 25\<rparr>"
definition edgePHL_DC :: Edge where
  "edgePHL_DC = \<lparr>edge_id = ''PHL-DC'', edge_source = Some nodePHL,
     edge_destination = Some nodeDC, weight = 225, timeWeight = 3, costWeight = 35\<rparr>"
definition edgeBOS_NYC :: Edge where
  "edgeBOS_NYC = \<lparr>edge_id = ''BOS-NYC'', edge_source = Some nodeBOS,
     edge_destination = Some nodeNYC, weight = 306, timeWeight = 9 / 2, costWeight = 50\<rparr>"

definition demoOps :: "operation list" where
  "demoOps =
     [AddNode (Some nodeNYC), AddNode (Some nodeBOS), AddNode (Some nodePHL),
      AddNode (Some nodeDC),
      AddEdge (Some edgeNYC_BOS), AddEdge (Some edgeNYC_PHL), AddEdge (Some edgePHL_DC),
      AddEdge (Some edgeBOS_NYC)]"

definition demoGraph :: Graph where
  "demoGraph = run_ops demoOps emptyGraph"

text \<open>A second network: two nodes and two parallel edges between them.\<close>

definition nodeA :: Node where "nodeA = \<lparr>node_id = ''A'', node_name = ''Alpha''\<rparr>"
definition nodeB :: Node where "nodeB = \<lparr>node_id = ''B'', node_name = ''Beta''\<rparr>"

definition edgeRoad :: Edge where
  "edgeRoad = \<lparr>edge_id = ''A-B-road'', edge_source = Some nodeA,
     edge_destination = Some nodeB, weight = 10, timeWeight = 1, costWeight = 1\<rparr>"
definition edgeRail :: Edge where
  "edgeRail = \<lparr>edge_id = ''A-B-rail'', edge_source = Some nodeA,
     edge_destination = Some nodeB, weight = 5, timeWeight = 9, costWeight = 9\<rparr>"

definition parallelGraph :: Graph where
  "parallelGraph =
     run_ops [AddNode (Some nodeA), AddNode (Some nodeB),
              AddEdge (Some edgeRoad), AddEdge (Some edgeRail)] emptyGraph"

section \<open>Import of a graph (JsonHandler::jsonToGraph)\<close>

text \<open>
  The structured record that \<open>jsonToGraph\<close> reads. \<^verbatim>\<open>nlohmann::json\<close> is a library
  outside the repository; of a JSON object only this is modelled: each member the code
  asks for is there (\<open>Some\<close>, with a value of the type the code converts it to) or not
  (\<open>None\<close>). \<^verbatim>\<open>j["k"].get<T>()\<close> on a member that is not there stops the import;
  \<^verbatim>\<open>j.value("k", d)\<close> and \<^verbatim>\<open>j.contains("k")\<close> do not.
\<close>

record NodeJson =
  nj_id :: "string option"
  nj_name :: "string option"

record EdgeJson =
  ej_id :: "string option"
  ej_source :: "string option"
  ej_destination :: "string option"
  ej_weight :: "real option"
  ej_time_weight :: "real option"
  ej_cost_weight :: "real option"

text \<open>\<open>None\<close> for the member \<^verbatim>\<open>"nodes"\<close> or \<^verbatim>\<open>"edges"\<close>: absent, or not an array.\<close>

record GraphJson =
  gj_nodes :: "NodeJson list option"
  gj_edges :: "EdgeJson list option"

definition loadNode :: "NodeJson \<Rightarrow> Graph \<Rightarrow> fault + Graph" where
  "loadNode nodeJson g =
     (case nj_id nodeJson of
        None \<Rightarrow> Inl MissingMember
      | Some i \<Rightarrow>
          Inr (snd (addNode
                 (Some \<lparr>node_id = i,
                         node_name = (case nj_name nodeJson of None \<Rightarrow> [] | Some n \<Rightarrow> n)\<rparr>)
                 g)))"

definition loadEdge :: "EdgeJson \<Rightarrow> Graph \<Rightarrow> fault + Graph" where
  "loadEdge edgeJson g =
     (case ej_source edgeJson of
        None \<Rightarrow> Inl MissingMember
      | Some s \<Rightarrow>
         (case ej_destination edgeJson of
            None \<Rightarrow> Inl MissingMember
          | Some d \<Rightarrow>
             (case getNode g s of
                None \<Rightarrow> Inr g
              | Some sourceNode \<Rightarrow>
                 (case getNode g d of
                    None \<Rightarrow> Inr g
                  | Some destNode \<Rightarrow>
                     (case ej_id edgeJson of
                        None \<Rightarrow> Inl MissingMember
                      | Some i \<Rightarrow>
                         (case ej_weight edgeJson of
                            None \<Rightarrow> Inl MissingMember
                          | Some w \<Rightarrow>
                              let edge0 = \<lparr>edge_id = i, edge_source = Some sourceNode,
                                             edge_destination = Some destNode, weight = w,
                                             timeWeight = 0, costWeight = 0\<rparr>;
                                  edge1 = (case ej_time_weight edgeJson of
                                             Some t \<Rightarrow> edge0\<lparr>timeWeight := t\<rparr>
                                           | None \<Rightarrow> edge0);
                                  edge2 = (case ej_cost_weight edgeJson of
                                             Some c \<Rightarrow> edge1\<lparr>costWeight := c\<rparr>
                                           | None \<Rightarrow> edge1)
                              in Inr (snd (addEdge (Some edge2) g))))))))"

text \<open>A \<^verbatim>\<open>for\<close> loop over the records that stops at the first fault.\<close>

fun loadAll :: "('a \<Rightarrow> Graph \<Rightarrow> fault + Graph) \<Rightarrow> 'a list \<Rightarrow> Graph \<Rightarrow> fault + Graph" where
  "loadAll f [] g = Inr g"
| "loadAll f (x # xs) g = (case f x g of Inl e \<Rightarrow> Inl e | Inr g' \<Rightarrow> loadAll f xs g')"

definition jsonToGraph :: "GraphJson \<Rightarrow> fault + Graph" where
  "jsonToGraph json =
     (case loadAll loadNode (case gj_nodes json of None \<Rightarrow> [] | Some ns \<Rightarrow> ns) emptyGraph of
        Inl e \<Rightarrow> Inl e
      | Inr g \<Rightarrow> loadAll loadEdge (case gj_edges json of None \<Rightarrow> [] | Some es \<Rightarrow> es) g)"

text \<open>An import record: two cities, an edge with its primary weight only, and an edge
  to a city that is not among the nodes.\<close>

definition demoJson :: GraphJson where
  "demoJson =
     \<lparr>gj_nodes = Some [\<lparr>nj_id = Some ''NYC'', nj_name = Some ''New York City''\<rparr>,
                       \<lparr>nj_id = Some ''BOS'', nj_name = None\<rparr>],
      gj_edges = Some [\<lparr>ej_id = Some ''NYC-BOS'', ej_source = Some ''NYC'',
                         ej_destination = Some ''BOS'', ej_weight = Some 306,
                         ej_time_weight = None, ej_cost_weight = None\<rparr>,
                       \<lparr>ej_id = Some ''NYC-DC'', ej_source = Some ''NYC'',
                         ej_destination = Some ''DC'', ej_weight = Some 378,
                         ej_time_weight = Some 5, ej_cost_weight = Some 60\<rparr>]\<rparr>"

text \<open>What it means that the stored edge \<open>e\<close> is the record \<open>ej\<close>, read with the
  defaults of an edge: a time or cost weight that the record lacks is zero.\<close>

definition importedFrom :: "EdgeJson \<Rightarrow> Edge \<Rightarrow> bool" where
  "importedFrom ej e \<longleftrightarrow>
     ej_id ej = Some (edge_id e) \<and>
     ej_source ej = Some (sourceId e) \<and>
     ej_destination ej = Some (destId e) \<and>
     ej_weight ej = Some (weight e) \<and>
     timeWeight e = (case ej_time_weight ej of None \<Rightarrow> 0 | Some t \<Rightarrow> t) \<and>
     costWeight e = (case ej_cost_weight ej of None \<Rightarrow> 0 | Some c \<Rightarrow> c)"

section \<open>Paths of a graph\<close>

text \<open>
  A path from \<open>u\<close> to \<open>v\<close> is a list of stored edges, each starting where the one
  before ends. Its nodes are the keys it visits; its score under a mode is the sum of
  the scores of its edges.
\<close>

fun is_path :: "Graph \<Rightarrow> string \<Rightarrow> Edge list \<Rightarrow> string \<Rightarrow> bool" where
  "is_path g u [] v = (u = v)"
| "is_path g u (e # es) v =
     (e \<in> set (getAllEdges g) \<and> sourceId e = u \<and> is_path g (destId e) es v)"

definition path_nodes :: "string \<Rightarrow> Edge list \<Rightarrow> string list" where
  "path_nodes u es = u # map destId es"

definition path_score :: "OptimizationMode \<Rightarrow> Edge list \<Rightarrow> real" where
  "path_score mode es = sum_list (map (\<lambda>e. getEdgeWeight e mode) es)"

text \<open>No two stored edges run from the same source to the same destination.\<close>

definition no_parallel_edges :: "Graph \<Rightarrow> bool" where
  "no_parallel_edges g \<longleftrightarrow>
     (\<forall>e \<in> set (getAllEdges g). \<forall>e' \<in> set (getAllEdges g).
        sourceId e = sourceId e' \<and> destId e = destId e' \<longrightarrow> e = e')"

text \<open>All three weights of every stored edge are non-negative (spec, section 3).\<close>

definition nonneg_weights :: "Graph \<Rightarrow> bool" where
  "nonneg_weights g \<longleftrightarrow>
     (\<forall>e \<in> set (getAllEdges g). 0 \<le> weight e \<and> 0 \<le> timeWeight e \<and> 0 \<le> costWeight e)"

section \<open>Invariants of the loops\<close>

text \<open>Every finite entry of the table belongs to a key that a path from the source
  reaches; the keys of the table are distinct.\<close>

definition table_sound :: "Graph \<Rightarrow> string \<Rightarrow> (string \<times> dbl) list \<Rightarrow> bool" where
  "table_sound g source dists \<longleftrightarrow>
     distinct (map fst dists) \<and>
     (\<forall>p \<in> set dists. snd p \<noteq> PosInf \<longrightarrow> (\<exists>es. is_path g source es (fst p)))"

text \<open>\<open>dle d v x\<close>: the table holds a finite distance for \<open>v\<close>, at most \<open>x\<close>.\<close>

definition dle :: "(string \<rightharpoonup> dbl) \<Rightarrow> string \<Rightarrow> real \<Rightarrow> bool" where
  "dle d v x \<longleftrightarrow> (\<exists>y. distanceAt d v = Val y \<and> y \<le> x)"

text \<open>The part of the invariant that the relaxation of one node's edges keeps, the node
  \<open>u\<close> that is being relaxed (at distance \<open>x\<close>) set apart.\<close>

definition relax_inv ::
  "Graph \<Rightarrow> OptimizationMode \<Rightarrow> string \<Rightarrow> string \<Rightarrow> real \<Rightarrow> SearchState \<Rightarrow> bool" where
  "relax_inv g mode s u x st \<longleftrightarrow>
     distanceAt (distances st) s = Val 0 \<and>
     distanceAt (distances st) u = Val x \<and> 0 \<le> x \<and>
     (\<forall>nd \<in> set (pq st). 0 \<le> distance nd \<and> dle (distances st) (nodeId nd) (distance nd)) \<and>
     (\<forall>v y. v \<noteq> u \<longrightarrow> distanceAt (distances st) v = Val y \<longrightarrow>
        \<lparr>nodeId = v, distance = y\<rparr> \<in> set (pq st) \<or>
        (\<forall>e \<in> set (getOutgoingEdges g v). dle (distances st) (destId e) (y + getEdgeWeight e mode))) \<and>
     (\<forall>v w. predecessors st v = Some w \<longrightarrow>
        (\<exists>e \<in> set (getOutgoingEdges g w). destId e = v \<and>
           (\<exists>a b. distanceAt (distances st) w = Val a \<and> distanceAt (distances st) v = Val b \<and>
                  a + getEdgeWeight e mode \<le> b)))"

text \<open>The invariant of the \<^verbatim>\<open>while\<close> loop of \<open>findShortestPath\<close>: the source is at
  distance 0; every queue entry is non-negative and not below the tabled distance of its
  node; every node with a finite distance is in the queue at that distance or has all its
  edges relaxed; every predecessor link runs along an edge that the distances respect.\<close>

definition search_inv :: "Graph \<Rightarrow> OptimizationMode \<Rightarrow> string \<Rightarrow> SearchState \<Rightarrow> bool" where
  "search_inv g mode s st \<longleftrightarrow>
     distanceAt (distances st) s = Val 0 \<and>
     (\<forall>nd \<in> set (pq st). 0 \<le> distance nd \<and> dle (distances st) (nodeId nd) (distance nd)) \<and>
     (\<forall>v y. distanceAt (distances st) v = Val y \<longrightarrow>
        \<lparr>nodeId = v, distance = y\<rparr> \<in> set (pq st) \<or>
        (\<forall>e \<in> set (getOutgoingEdges g v). dle (distances st) (destId e) (y + getEdgeWeight e mode))) \<and>
     (\<forall>v w. predecessors st v = Some w \<longrightarrow>
        (\<exists>e \<in> set (getOutgoingEdges g w). destId e = v \<and>
           (\<exists>a b. distanceAt (distances st) w = Val a \<and> distanceAt (distances st) v = Val b \<and>
                  a + getEdgeWeight e mode \<le> b)))"

text \<open>What the loop leaves behind.\<close>

definition search_post :: "Graph \<Rightarrow> OptimizationMode \<Rightarrow> string \<Rightarrow> string \<Rightarrow> SearchState \<Rightarrow> bool" where
  "search_post g mode s t st \<longleftrightarrow>
     distanceAt (distances st) s = Val 0 \<and>
     (\<forall>v w. predecessors st v = Some w \<longrightarrow>
        (\<exists>e \<in> set (getOutgoingEdges g w). destId e = v \<and>
           (\<exists>a b. distanceAt (distances st) w = Val a \<and> distanceAt (distances st) v = Val b \<and>
                  a + getEdgeWeight e mode \<le> b))) \<and>
     (\<forall>es. is_path g s es t \<longrightarrow> dle (distances st) t (path_score mode es))"

text \<open>The vector that \<open>reconstructPath\<close> builds before it reverses it: it starts at the
  destination, each key is followed by its predecessor, and it ends at the source.\<close>

fun pred_chain :: "(string \<rightharpoonup> string) \<Rightarrow> string \<Rightarrow> string list \<Rightarrow> bool" where
  "pred_chain preds s [] = False"
| "pred_chain preds s [v] = (v = s)"
| "pred_chain preds s (v # w # rest) =
     (v \<noteq> s \<and> preds v = Some w \<and> pred_chain preds s (w # rest))"

text \<open>A second invariant of the same loop, on the predecessor links alone: queue entries
  and predecessors are nodes with a finite distance, and every node other than the
  source that has a finite distance has a predecessor.\<close>

definition chain_inv :: "Graph \<Rightarrow> string \<Rightarrow> SearchState \<Rightarrow> bool" where
  "chain_inv g s st \<longleftrightarrow>
     (\<forall>nd \<in> set (pq st). nodeId nd \<in> set (map fst (nodes g)) \<and>
        distanceAt (distances st) (nodeId nd) \<noteq> PosInf) \<and>
     (\<forall>v w. predecessors st v = Some w \<longrightarrow>
        w \<in> set (map fst (nodes g)) \<and> distanceAt (distances st) w \<noteq> PosInf) \<and>
     (\<forall>v \<in> set (map fst (nodes g)). v \<noteq> s \<longrightarrow> distanceAt (distances st) v \<noteq> PosInf \<longrightarrow>
        predecessors st v \<noteq> None)"

section \<open>The store keeps its invariants\<close>


lemma graph_inv_empty: "graph_inv emptyGraph"
  by (simp add: graph_inv_def emptyGraph_def)

lemma graph_inv_clear: "graph_inv (clear g)"
  by (simp add: graph_inv_def clear_def)

lemma map_of_None_keys: "map_of al k = None \<longleftrightarrow> k \<notin> set (map fst al)"
  by (simp add: map_of_eq_None_iff)

lemma set_update_fresh:
  "k \<notin> set (map fst al) \<Longrightarrow> set (AList.update k v al) = insert (k, v) (set al)"
  by (induction al) auto

lemma graph_inv_edge_source:
  "graph_inv g \<Longrightarrow> e \<in> set (edges g) \<Longrightarrow> sourceId e \<in> set (map fst (nodes g))"
  by (simp add: graph_inv_def)

lemma graph_inv_edge_dest:
  "graph_inv g \<Longrightarrow> e \<in> set (edges g) \<Longrightarrow> destId e \<in> set (map fst (nodes g))"
  by (simp add: graph_inv_def)

lemma graph_inv_adjacency:
  "graph_inv g \<Longrightarrow> (k, es) \<in> set (adjacencyList g) \<Longrightarrow>
     es = filter (\<lambda>e. sourceId e = k) (edges g)"
  by (force simp add: graph_inv_def)

lemma graph_inv_addNode:
  assumes "graph_inv g"
  shows "graph_inv (snd (addNode node g))"
proof (cases node)
  case None
  then show ?thesis using assms by (simp add: addNode_def)
next
  case (Some n)
  show ?thesis
  proof (cases "map_of (nodes g) (node_id n) = None")
    case False
    then show ?thesis using assms Some by (simp add: addNode_def)
  next
    case True
    then have fresh: "node_id n \<notin> set (map fst (nodes g))"
      by (simp add: map_of_None_keys)
    with assms have fresh': "node_id n \<notin> set (map fst (adjacencyList g))"
      by (simp add: graph_inv_def)
    have noedge: "filter (\<lambda>e. sourceId e = node_id n) (edges g) = []"
      unfolding filter_empty_conv
      using graph_inv_edge_source [OF assms] fresh by metis
    let ?g = "g\<lparr>nodes := AList.update (node_id n) n (nodes g),
                 adjacencyList := AList.update (node_id n) [] (adjacencyList g)\<rparr>"
    have 1: "distinct (map fst (nodes ?g))" "distinct (map fst (adjacencyList ?g))"
      using assms by (simp_all add: graph_inv_def distinct_update)
    have 2: "set (map fst (adjacencyList ?g)) = set (map fst (nodes ?g))"
      using assms by (simp add: graph_inv_def dom_update)
    have 3: "\<forall>p \<in> set (nodes ?g). node_id (snd p) = fst p"
      using assms fresh by (simp add: graph_inv_def set_update_fresh)
    have 4: "distinct (map edge_id (edges ?g))"
      using assms by (simp add: graph_inv_def)
    have 5: "\<forall>e \<in> set (edges ?g). edge_source e \<noteq> None \<and> edge_destination e \<noteq> None \<and>
        sourceId e \<in> set (map fst (nodes ?g)) \<and> destId e \<in> set (map fst (nodes ?g))"
      using assms by (simp add: graph_inv_def dom_update)
    have 6: "\<forall>p \<in> set (adjacencyList ?g). snd p = filter (\<lambda>e. sourceId e = fst p) (edges ?g)"
      using assms fresh' noedge by (simp add: graph_inv_def set_update_fresh)
    have "graph_inv ?g"
      unfolding graph_inv_def using 1 2 3 4 5 6 by blast
    then show ?thesis using True Some by (simp add: addNode_def)
  qed
qed


lemma set_map_default_present:
  "p \<in> set (AList.map_default k v f al) \<Longrightarrow> k \<in> set (map fst al) \<Longrightarrow>
     distinct (map fst al) \<Longrightarrow>
     (\<exists>old. (k, old) \<in> set al \<and> p = (k, f old)) \<or> (p \<in> set al \<and> fst p \<noteq> k)"
proof (induction al)
  case Nil
  then show ?case by simp
next
  case (Cons a al)
  show ?case
  proof (cases "fst a = k")
    case True
    then have "k \<notin> set (map fst al)" using Cons.prems(3) by auto
    then have "\<forall>q \<in> set al. fst q \<noteq> k" by (metis image_eqI list.set_map)
    then show ?thesis using Cons.prems(1) True by (cases a) auto
  next
    case False
    then show ?thesis using Cons by auto
  qed
qed

lemma find_None_ids: "find (\<lambda>x. edge_id x = i) es = None \<longleftrightarrow> i \<notin> set (map edge_id es)"
  by (auto simp: find_None_iff)

lemma graph_inv_addEdge:
  assumes "graph_inv g"
  shows "graph_inv (snd (addEdge edge g))"
proof (cases "fst (addEdge edge g)")
  case False
  then have "snd (addEdge edge g) = g"
    by (auto simp: addEdge_def split: option.splits if_splits)
  then show ?thesis using assms by simp
next
  case True
  then obtain e where e: "edge = Some e" "edge_source e \<noteq> None" "edge_destination e \<noteq> None"
      "map_of (nodes g) (sourceId e) \<noteq> None" "map_of (nodes g) (destId e) \<noteq> None"
      "find (\<lambda>x. edge_id x = edge_id e) (edges g) = None"
    by (auto simp: addEdge_def split: option.splits if_splits)
  let ?g = "g\<lparr>edges := edges g @ [e],
               adjacencyList :=
                 AList.map_default (sourceId e) [e] (\<lambda>es. es @ [e]) (adjacencyList g)\<rparr>"
  have res: "snd (addEdge edge g) = ?g"
    using e by (auto simp add: addEdge_def)
  have src: "sourceId e \<in> set (map fst (nodes g))" and dst: "destId e \<in> set (map fst (nodes g))"
    using e(4,5) by (simp_all add: map_of_None_keys)
  have src': "sourceId e \<in> set (map fst (adjacencyList g))"
    using assms src by (simp add: graph_inv_def)
  have dk: "distinct (map fst (adjacencyList g))"
    using assms by (simp add: graph_inv_def)
  have 1: "distinct (map fst (nodes ?g))" "distinct (map fst (adjacencyList ?g))"
    using assms by (simp_all add: graph_inv_def distinct_map_default)
  have 2: "set (map fst (adjacencyList ?g)) = set (map fst (nodes ?g))"
    using assms src by (auto simp add: graph_inv_def dom_map_default)
  have 3: "\<forall>p \<in> set (nodes ?g). node_id (snd p) = fst p"
    using assms by (simp add: graph_inv_def)
  have 4: "distinct (map edge_id (edges ?g))"
    using assms e(6) by (simp add: graph_inv_def find_None_ids)
  have 5: "\<forall>x \<in> set (edges ?g). edge_source x \<noteq> None \<and> edge_destination x \<noteq> None \<and>
      sourceId x \<in> set (map fst (nodes ?g)) \<and> destId x \<in> set (map fst (nodes ?g))"
    using assms e(2,3) src dst by (simp add: graph_inv_def)
  have 6: "\<forall>p \<in> set (adjacencyList ?g). snd p = filter (\<lambda>x. sourceId x = fst p) (edges ?g)"
  proof
    fix p assume "p \<in> set (adjacencyList ?g)"
    then have "(\<exists>old. (sourceId e, old) \<in> set (adjacencyList g) \<and> p = (sourceId e, old @ [e]))
        \<or> (p \<in> set (adjacencyList g) \<and> fst p \<noteq> sourceId e)"
      using set_map_default_present [OF _ src' dk] by simp
    then show "snd p = filter (\<lambda>x. sourceId x = fst p) (edges ?g)"
    proof
      assume "\<exists>old. (sourceId e, old) \<in> set (adjacencyList g) \<and> p = (sourceId e, old @ [e])"
      then obtain old where old: "(sourceId e, old) \<in> set (adjacencyList g)"
          "p = (sourceId e, old @ [e])" by blast
      have "old = filter (\<lambda>x. sourceId x = sourceId e) (edges g)"
        using graph_inv_adjacency [OF assms old(1)] .
      then show ?thesis using old(2) by simp
    next
      assume q: "p \<in> set (adjacencyList g) \<and> fst p \<noteq> sourceId e"
      then have "snd p = filter (\<lambda>x. sourceId x = fst p) (edges g)"
        using assms by (simp add: graph_inv_def)
      then show ?thesis using q by auto
    qed
  qed
  have "graph_inv ?g"
    unfolding graph_inv_def using 1 2 3 4 5 6 by blast
  then show ?thesis using res by simp
qed

lemma remove1_distinct_key:
  "distinct (map f xs) \<Longrightarrow> x \<in> set xs \<Longrightarrow> remove1 x xs = filter (\<lambda>y. f y \<noteq> f x) xs"
proof (induction xs)
  case Nil
  then show ?case by simp
next
  case (Cons a xs)
  show ?case
  proof (cases "a = x")
    case True
    then have "f x \<notin> f ` set xs" using Cons.prems(1) by simp
    then have "\<forall>y \<in> set xs. f y \<noteq> f x" by (metis image_eqI)
    then have "filter (\<lambda>y. f y \<noteq> f x) xs = xs" by (simp add: filter_id_conv)
    then show ?thesis using True by simp
  next
    case False
    then have "x \<in> set xs" using Cons.prems(2) by simp
    moreover have "f a \<noteq> f x" using Cons.prems(1) \<open>x \<in> set xs\<close> by auto
    ultimately show ?thesis using Cons False by simp
  qed
qed

lemma graph_inv_removeEdge:
  assumes "graph_inv g"
  shows "graph_inv (snd (removeEdge edgeId g))"
proof (cases "find (\<lambda>e. edge_id e = edgeId) (edges g)")
  case None
  then show ?thesis using assms by (simp add: removeEdge_def)
next
  case (Some edge)
  then have mem: "edge \<in> set (edges g)" and eid: "edge_id edge = edgeId"
    by (auto simp: find_Some_iff)
  let ?g = "g\<lparr>adjacencyList :=
              AList.map_default (sourceId edge) []
                (filter (\<lambda>e. \<not> edge_id e = edgeId)) (adjacencyList g),
            edges := remove1 edge (edges g)\<rparr>"
  have res: "snd (removeEdge edgeId g) = ?g"
    using Some by (simp add: removeEdge_def)
  have de: "distinct (map edge_id (edges g))"
    using assms by (simp add: graph_inv_def)
  have rm: "remove1 edge (edges g) = filter (\<lambda>e. edge_id e \<noteq> edgeId) (edges g)"
    using remove1_distinct_key [OF de mem] eid by simp
  have src: "sourceId edge \<in> set (map fst (nodes g))"
    using graph_inv_edge_source [OF assms mem] .
  have src': "sourceId edge \<in> set (map fst (adjacencyList g))"
    using assms src by (simp add: graph_inv_def)
  have dk: "distinct (map fst (adjacencyList g))"
    using assms by (simp add: graph_inv_def)
  have 1: "distinct (map fst (nodes ?g))" "distinct (map fst (adjacencyList ?g))"
    using assms by (simp_all add: graph_inv_def distinct_map_default)
  have 2: "set (map fst (adjacencyList ?g)) = set (map fst (nodes ?g))"
    using assms src by (auto simp add: graph_inv_def dom_map_default)
  have 3: "\<forall>p \<in> set (nodes ?g). node_id (snd p) = fst p"
    using assms by (simp add: graph_inv_def)
  have 4: "distinct (map edge_id (edges ?g))"
    using de by (simp add: rm distinct_map_filter)
  have 5: "\<forall>x \<in> set (edges ?g). edge_source x \<noteq> None \<and> edge_destination x \<noteq> None \<and>
      sourceId x \<in> set (map fst (nodes ?g)) \<and> destId x \<in> set (map fst (nodes ?g))"
    using assms by (simp add: graph_inv_def rm)
  have 6: "\<forall>p \<in> set (adjacencyList ?g). snd p = filter (\<lambda>x. sourceId x = fst p) (edges ?g)"
  proof
    fix p assume "p \<in> set (adjacencyList ?g)"
    then have "(\<exists>old. (sourceId edge, old) \<in> set (adjacencyList g) \<and>
           p = (sourceId edge, filter (\<lambda>e. \<not> edge_id e = edgeId) old))
        \<or> (p \<in> set (adjacencyList g) \<and> fst p \<noteq> sourceId edge)"
      using set_map_default_present [OF _ src' dk] by simp
    then show "snd p = filter (\<lambda>x. sourceId x = fst p) (edges ?g)"
    proof
      assume "\<exists>old. (sourceId edge, old) \<in> set (adjacencyList g) \<and>
           p = (sourceId edge, filter (\<lambda>e. \<not> edge_id e = edgeId) old)"
      then obtain old where old: "(sourceId edge, old) \<in> set (adjacencyList g)"
          "p = (sourceId edge, filter (\<lambda>e. \<not> edge_id e = edgeId) old)" by blast
      have "old = filter (\<lambda>x. sourceId x = sourceId edge) (edges g)"
        using graph_inv_adjacency [OF assms old(1)] .
      then show ?thesis using old(2) by (simp add: rm conj_commute)
    next
      assume q0: "p \<in> set (adjacencyList g) \<and> fst p \<noteq> sourceId edge"
      define q where "q = p"
      have q: "q \<in> set (adjacencyList g)" "p = q" and False: "fst q \<noteq> sourceId edge"
        using q0 by (simp_all add: q_def)
      have sq: "snd q = filter (\<lambda>x. sourceId x = fst q) (edges g)"
        using assms q(1) by (simp add: graph_inv_def)
      have "filter (\<lambda>x. sourceId x = fst q) (filter (\<lambda>e. edge_id e \<noteq> edgeId) (edges g))
            = filter (\<lambda>x. sourceId x = fst q) (edges g)"
      proof -
        have "\<forall>x \<in> set (edges g). sourceId x = fst q \<longrightarrow> edge_id x \<noteq> edgeId"
        proof (intro ballI impI)
          fix x assume x: "x \<in> set (edges g)" "sourceId x = fst q"
          show "edge_id x \<noteq> edgeId"
          proof
            assume "edge_id x = edgeId"
            then have "x = edge"
              using de x(1) mem eid by (metis distinct_map inj_onD)
            then show False using x(2) False by simp
          qed
        qed
        then show ?thesis by (auto intro: filter_cong)
      qed
      then show ?thesis using q(2) sq False by (simp add: rm)
    qed
  qed
  have "graph_inv ?g"
    unfolding graph_inv_def using 1 2 3 4 5 6 by blast
  then show ?thesis using res by simp
qed


lemma graph_inv_removeNode:
  assumes "graph_inv g"
  shows "graph_inv (snd (removeNode k g))"
proof (cases "map_of (nodes g) k = None")
  case True
  then show ?thesis using assms by (simp add: removeNode_def)
next
  case False
  let ?g = "g\<lparr>edges := filter (\<lambda>e. \<not> (sourceId e = k \<or> destId e = k)) (edges g),
          adjacencyList :=
            AList.map_ran (\<lambda>k' es. filter (\<lambda>e. \<not> destId e = k) es)
              (AList.delete k (adjacencyList g)),
          nodes := AList.delete k (nodes g)\<rparr>"
  have res: "snd (removeNode k g) = ?g"
    using False by (auto simp add: removeNode_def)
  have 1: "distinct (map fst (nodes ?g))" "distinct (map fst (adjacencyList ?g))"
    using assms by (simp_all add: graph_inv_def distinct_delete distinct_map_ran)
  have 2: "set (map fst (adjacencyList ?g)) = set (map fst (nodes ?g))"
    using assms by (simp add: graph_inv_def delete_keys)
  have 3: "\<forall>p \<in> set (nodes ?g). node_id (snd p) = fst p"
    using assms by (simp add: graph_inv_def AList.delete_eq)
  have 4: "distinct (map edge_id (edges ?g))"
    using assms by (simp add: graph_inv_def distinct_map_filter)
  have 5: "\<forall>x \<in> set (edges ?g). edge_source x \<noteq> None \<and> edge_destination x \<noteq> None \<and>
      sourceId x \<in> set (map fst (nodes ?g)) \<and> destId x \<in> set (map fst (nodes ?g))"
    using assms by (simp add: graph_inv_def delete_keys)
  have 6: "\<forall>p \<in> set (adjacencyList ?g). snd p = filter (\<lambda>x. sourceId x = fst p) (edges ?g)"
  proof
    fix p assume "p \<in> set (adjacencyList ?g)"
    then obtain a b where ab: "(a, b) \<in> set (adjacencyList g)" "a \<noteq> k"
        "p = (a, filter (\<lambda>e. \<not> destId e = k) b)"
      by (auto simp: AList.map_ran_def AList.delete_eq)
    have "b = filter (\<lambda>x. sourceId x = a) (edges g)"
      using graph_inv_adjacency [OF assms ab(1)] .
    then show "snd p = filter (\<lambda>x. sourceId x = fst p) (edges ?g)"
      using ab(2,3) by (auto intro: filter_cong)
  qed
  have "graph_inv ?g"
    unfolding graph_inv_def using 1 2 3 4 5 6 by blast
  then show ?thesis using res by simp
qed

lemma graph_inv_apply_op: "graph_inv g \<Longrightarrow> graph_inv (snd (apply_op x g))"
  by (cases x)
    (simp_all add: graph_inv_addNode graph_inv_removeNode graph_inv_addEdge
       graph_inv_removeEdge graph_inv_clear)

lemma graph_inv_run_ops: "graph_inv g \<Longrightarrow> graph_inv (run_ops xs g)"
  by (induction xs arbitrary: g) (simp_all add: graph_inv_apply_op)

lemma outgoing_filter:
  assumes "graph_inv g"
  shows "getOutgoingEdges g k = filter (\<lambda>e. sourceId e = k) (edges g)"
proof (cases "map_of (adjacencyList g) k")
  case None
  then have "k \<notin> set (map fst (nodes g))"
    using assms by (simp add: graph_inv_def map_of_None_keys)
  then have "\<forall>e \<in> set (edges g). sourceId e \<noteq> k"
    using graph_inv_edge_source [OF assms] by metis
  then have "filter (\<lambda>e. sourceId e = k) (edges g) = []"
    by (simp add: filter_empty_conv)
  then show ?thesis using None by (simp add: getOutgoingEdges_def)
next
  case (Some es)
  then have "(k, es) \<in> set (adjacencyList g)" by (rule map_of_SomeD)
  then show ?thesis
    using graph_inv_adjacency [OF assms] Some by (simp add: getOutgoingEdges_def)
qed

lemma set_outgoing:
  "graph_inv g \<Longrightarrow> e \<in> set (getOutgoingEdges g k) \<longleftrightarrow> e \<in> set (edges g) \<and> sourceId e = k"
  by (simp add: outgoing_filter)

lemma count_list_distinct: "distinct xs \<Longrightarrow> x \<in> set xs \<Longrightarrow> count_list xs x = 1"
  by (induction xs) auto

lemma failed_op_unchanged: "\<not> fst (apply_op x g) \<Longrightarrow> snd (apply_op x g) = g"
  by (cases x)
    (auto simp: addNode_def removeNode_def addEdge_def removeEdge_def
      split: option.splits if_splits)


lemma rejected_mutations:
  "addNode None g = (False, g)"
  "getNode g (node_id n) \<noteq> None \<Longrightarrow> addNode (Some n) g = (False, g)"
  "getNode g k = None \<Longrightarrow> removeNode k g = (False, g)"
  "addEdge None g = (False, g)"
  "edge_source e = None \<or> edge_destination e = None \<or> getNode g (sourceId e) = None \<or>
     getNode g (destId e) = None \<or> edge_id e \<in> set (map edge_id (getAllEdges g)) \<Longrightarrow>
     addEdge (Some e) g = (False, g)"
  "k \<notin> set (map edge_id (getAllEdges g)) \<Longrightarrow> removeEdge k g = (False, g)"
proof -
  show "addNode None g = (False, g)" by (simp add: addNode_def)
  show "addNode (Some n) g = (False, g)" if "getNode g (node_id n) \<noteq> None"
    using that by (auto simp: addNode_def getNode_def)
  show "removeNode k g = (False, g)" if "getNode g k = None"
    using that by (simp add: removeNode_def getNode_def)
  show "addEdge None g = (False, g)" by (simp add: addEdge_def)
  show "addEdge (Some e) g = (False, g)"
    if "edge_source e = None \<or> edge_destination e = None \<or> getNode g (sourceId e) = None \<or>
     getNode g (destId e) = None \<or> edge_id e \<in> set (map edge_id (getAllEdges g))"
  proof -
    have "find (\<lambda>x. edge_id x = edge_id e) (edges g) \<noteq> None"
      if "edge_id e \<in> set (map edge_id (getAllEdges g))"
      using that by (simp add: find_None_ids getAllEdges_def)
    then show ?thesis
      using that unfolding addEdge_def getNode_def by auto
  qed
  show "removeEdge k g = (False, g)" if "k \<notin> set (map edge_id (getAllEdges g))"
  proof -
    have "find (\<lambda>e. edge_id e = k) (edges g) = None"
      using that by (simp add: find_None_ids getAllEdges_def)
    then show ?thesis by (simp add: removeEdge_def)
  qed
qed


section \<open>Facts about the two concrete networks\<close>

lemmas demo_defs = nodeNYC_def nodeBOS_def nodePHL_def nodeDC_def
  edgeNYC_BOS_def edgeNYC_PHL_def edgePHL_DC_def edgeBOS_NYC_def

lemma demo_ids [simp]:
  "sourceId edgeNYC_BOS = ''NYC''" "destId edgeNYC_BOS = ''BOS''"
  "sourceId edgeNYC_PHL = ''NYC''" "destId edgeNYC_PHL = ''PHL''"
  "sourceId edgePHL_DC = ''PHL''" "destId edgePHL_DC = ''DC''"
  "sourceId edgeBOS_NYC = ''BOS''" "destId edgeBOS_NYC = ''NYC''"
  "node_id nodeNYC = ''NYC''" "node_id nodeBOS = ''BOS''"
  "node_id nodePHL = ''PHL''" "node_id nodeDC = ''DC''"
  "edge_id edgeNYC_BOS = ''NYC-BOS''" "edge_id edgeNYC_PHL = ''NYC-PHL''"
  "edge_id edgePHL_DC = ''PHL-DC''" "edge_id edgeBOS_NYC = ''BOS-NYC''"
  by (simp_all add: sourceId_def destId_def demo_defs)

lemma demo_endpoints [simp]:
  "edge_source edgeNYC_BOS = Some nodeNYC" "edge_destination edgeNYC_BOS = Some nodeBOS"
  "edge_source edgeNYC_PHL = Some nodeNYC" "edge_destination edgeNYC_PHL = Some nodePHL"
  "edge_source edgePHL_DC = Some nodePHL" "edge_destination edgePHL_DC = Some nodeDC"
  "edge_source edgeBOS_NYC = Some nodeBOS" "edge_destination edgeBOS_NYC = Some nodeNYC"
  by (simp_all add: edgeNYC_BOS_def edgeNYC_PHL_def edgePHL_DC_def edgeBOS_NYC_def)

lemma demoGraph_eq:
  "demoGraph =
     \<lparr>nodes = [(''NYC'', nodeNYC), (''BOS'', nodeBOS), (''PHL'', nodePHL), (''DC'', nodeDC)],
      adjacencyList = [(''NYC'', [edgeNYC_BOS, edgeNYC_PHL]), (''BOS'', [edgeBOS_NYC]),
                       (''PHL'', [edgePHL_DC]), (''DC'', [])],
      edges = [edgeNYC_BOS, edgeNYC_PHL, edgePHL_DC, edgeBOS_NYC]\<rparr>"
  by (simp add: demoGraph_def demoOps_def emptyGraph_def addNode_def addEdge_def)

lemma demo_outgoing [simp]:
  "getOutgoingEdges demoGraph ''NYC'' = [edgeNYC_BOS, edgeNYC_PHL]"
  "getOutgoingEdges demoGraph ''BOS'' = [edgeBOS_NYC]"
  "getOutgoingEdges demoGraph ''PHL'' = [edgePHL_DC]"
  "getOutgoingEdges demoGraph ''DC'' = []"
  by (simp_all add: getOutgoingEdges_def demoGraph_eq)

lemma demo_weights [simp]:
  "weight edgeNYC_BOS = 306" "weight edgeNYC_PHL = 153" "weight edgePHL_DC = 225"
  "weight edgeBOS_NYC = 306"
  "timeWeight edgeNYC_BOS = 9 / 2" "timeWeight edgeNYC_PHL = 2" "timeWeight edgePHL_DC = 3"
  "timeWeight edgeBOS_NYC = 9 / 2"
  "costWeight edgeNYC_BOS = 50" "costWeight edgeNYC_PHL = 25" "costWeight edgePHL_DC = 35"
  "costWeight edgeBOS_NYC = 50"
  by (simp_all add: edgeNYC_BOS_def edgeNYC_PHL_def edgePHL_DC_def edgeBOS_NYC_def)

lemma parallel_defs_simps [simp]:
  "sourceId edgeRoad = ''A''" "destId edgeRoad = ''B''"
  "sourceId edgeRail = ''A''" "destId edgeRail = ''B''"
  "node_id nodeA = ''A''" "node_id nodeB = ''B''"
  "weight edgeRoad = 10" "timeWeight edgeRoad = 1" "costWeight edgeRoad = 1"
  "weight edgeRail = 5" "timeWeight edgeRail = 9" "costWeight edgeRail = 9"
  "edge_id edgeRoad = ''A-B-road''" "edge_id edgeRail = ''A-B-rail''"
  "edge_source edgeRoad = Some nodeA" "edge_destination edgeRoad = Some nodeB"
  "edge_source edgeRail = Some nodeA" "edge_destination edgeRail = Some nodeB"
  by (simp_all add: sourceId_def destId_def nodeA_def nodeB_def edgeRoad_def edgeRail_def)

lemma parallelGraph_eq:
  "parallelGraph =
     \<lparr>nodes = [(''A'', nodeA), (''B'', nodeB)],
      adjacencyList = [(''A'', [edgeRoad, edgeRail]), (''B'', [])],
      edges = [edgeRoad, edgeRail]\<rparr>"
  by (simp add: parallelGraph_def emptyGraph_def addNode_def addEdge_def)

lemma parallel_outgoing [simp]:
  "getOutgoingEdges parallelGraph ''A'' = [edgeRoad, edgeRail]"
  "getOutgoingEdges parallelGraph ''B'' = []"
  by (simp_all add: getOutgoingEdges_def parallelGraph_eq)

lemma parallel_nodes: "nodes parallelGraph = [(''A'', nodeA), (''B'', nodeB)]"
  by (simp add: parallelGraph_eq)

lemma demo_nodes:
  "nodes demoGraph = [(''NYC'', nodeNYC), (''BOS'', nodeBOS), (''PHL'', nodePHL), (''DC'', nodeDC)]"
  by (simp add: demoGraph_eq)

lemma graph_inv_demoGraph: "graph_inv demoGraph"
  unfolding demoGraph_def by (rule graph_inv_run_ops) (rule graph_inv_empty)



section \<open>Queries on concrete networks\<close>

lemma pick_single: "valid_pick pick \<Longrightarrow> pick [a] = 0"
  unfolding valid_pick_def by (metis length_Cons less_Suc0 list.distinct(1) list.size(3))

lemma pick_unique_least:
  assumes "valid_pick pick" "i < length q" "\<forall>j < length q. j \<noteq> i \<longrightarrow> distance (q ! i) < distance (q ! j)"
  shows "pick q = i"
proof (rule ccontr)
  assume ne: "pick q \<noteq> i"
  have q: "q \<noteq> []" using assms(2) by auto
  then have lt: "pick q < length q" and le: "\<forall>nd \<in> set q. distance (q ! pick q) \<le> distance nd"
    using assms(1) unfolding valid_pick_def by blast+
  have "distance (q ! pick q) \<le> distance (q ! i)" using le assms(2) by simp
  moreover have "distance (q ! i) < distance (q ! pick q)" using assms(3) lt ne by blast
  ultimately show False by simp
qed

lemma pick_pair_first: "valid_pick pick \<Longrightarrow> distance a < distance b \<Longrightarrow> pick [a, b] = 0"
  by (rule pick_unique_least) (auto simp: less_Suc_eq)

lemma pick_pair_second: "valid_pick pick \<Longrightarrow> distance b < distance a \<Longrightarrow> pick [a, b] = Suc 0"
  by (rule pick_unique_least) (auto simp: less_Suc_eq)

lemma demo_search:
  assumes "valid_pick pick"
  shows "\<exists>d p q. searchLoop pick demoGraph ''DC'' DISTANCE (initialState demoGraph ''NYC'')
     = Some \<lparr>distances = d, predecessors = p, pq = q\<rparr> \<and> d ''DC'' = Some (Val 378)
       \<and> p ''DC'' = Some ''PHL'' \<and> p ''PHL'' = Some ''NYC''"
  apply (simp add: initialState_def initDistances_def getAllNodes_def demoGraph_eq [THEN arg_cong [where f = nodes]])
  apply (subst searchLoop.simps)
  apply (simp add: pick_single [OF assms] Let_def relaxEdge_def distanceAt_def getEdgeWeight_def DISTANCE_def)
  apply (subst searchLoop.simps)
  apply (simp add: pick_pair_second [OF assms] Let_def relaxEdge_def distanceAt_def getEdgeWeight_def DISTANCE_def)
  apply (subst searchLoop.simps)
  apply (simp add: pick_pair_first [OF assms] Let_def relaxEdge_def distanceAt_def getEdgeWeight_def DISTANCE_def)
  apply (subst searchLoop.simps)
  apply (simp add: pick_single [OF assms] Let_def relaxEdge_def distanceAt_def getEdgeWeight_def DISTANCE_def)
  done


lemma firstMin_lt: "q \<noteq> [] \<Longrightarrow> firstMin q < length q"
proof (induction q)
  case Nil
  then show ?case by simp
next
  case (Cons x xs)
  show ?case
  proof (cases "\<forall>y \<in> set xs. distance x \<le> distance y")
    case True
    then show ?thesis by simp
  next
    case False
    then have "xs \<noteq> []" by auto
    then show ?thesis using Cons.IH False by simp
  qed
qed

lemma firstMin_least: "nd \<in> set q \<Longrightarrow> distance (q ! firstMin q) \<le> distance nd"
proof (induction q arbitrary: nd)
  case Nil
  then show ?case by simp
next
  case (Cons x xs)
  show ?case
  proof (cases "\<forall>y \<in> set xs. distance x \<le> distance y")
    case True
    then show ?thesis using Cons.prems by auto
  next
    case False
    then obtain y where y: "y \<in> set xs" "distance y < distance x" by force
    have "distance (xs ! firstMin xs) \<le> distance y" using Cons.IH [OF y(1)] .
    then have "distance (xs ! firstMin xs) \<le> distance x" using y(2) by simp
    then show ?thesis using Cons.prems Cons.IH False by auto
  qed
qed

lemma valid_pick_firstMin: "valid_pick firstMin"
  unfolding valid_pick_def using firstMin_lt firstMin_least by blast

lemma initDistances_source_aux:
  "d s = None \<or> d s = Some (Val 0) \<Longrightarrow>
   (fold (\<lambda>node d. d(node_id node \<mapsto> (if node_id node = s then Val 0 else PosInf))) ns d) s = None
   \<or> (fold (\<lambda>node d. d(node_id node \<mapsto> (if node_id node = s then Val 0 else PosInf))) ns d) s
       = Some (Val 0)"
  by (induction ns arbitrary: d) auto

lemma initDistances_source: "distanceAt (initDistances g s) s = Val 0"
  using initDistances_source_aux [of Map.empty s "getAllNodes g"]
  by (auto simp: distanceAt_def initDistances_def)

lemma initialState_sel [simp]:
  "distances (initialState g s) = initDistances g s"
  "predecessors (initialState g s) = Map.empty"
  "pq (initialState g s) = [\<lparr>nodeId = s, distance = 0\<rparr>]"
  by (simp_all add: initialState_def)

text \<open>
  Claim C10. When source and destination are the same key and that key is a node of the
  graph, \<open>findShortestPath\<close> returns, in every mode, a found result whose path is the
  single key and whose three totals are 0.
\<close>

theorem same_node_query:
  assumes "valid_pick pick" "getNode g s \<noteq> None"
  shows "findShortestPath pick g s s mode =
           Some (Inr \<lparr>path = [s], totalDistance = 0, totalTime = 0, totalCost = 0, found = True\<rparr>)"
proof -
  have loop: "searchLoop pick g s mode (initialState g s) =
      Some ((initialState g s)\<lparr>pq := []\<rparr>)"
    by (subst searchLoop.simps) (simp add: pick_single [OF assms(1)])
  have rec: "reconstructPath Map.empty s s = Some [s]"
    unfolding reconstructPath_def by (subst reconstructLoop.simps) simp
  show ?thesis
    using assms(2) initDistances_source [of g s]
    by (auto simp add: findShortestPath_def loop buildResult_def rec)
qed

theorem same_node_query_witness:
  "findShortestPath firstMin demoGraph ''NYC'' ''NYC'' BALANCED =
     Some (Inr \<lparr>path = [''NYC''], totalDistance = 0, totalTime = 0, totalCost = 0,
                found = True\<rparr>)"
  using same_node_query [OF valid_pick_firstMin, of demoGraph "''NYC''" BALANCED]
  by (simp add: getNode_def demoGraph_eq)

text \<open>
  Claim C5 (scenario A). On the network NYC, BOS, PHL, DC with the edges NYC to BOS
  (306, 4.5, 50), NYC to PHL (153, 2.0, 25), PHL to DC (225, 3.0, 35) and BOS to NYC
  (306, 4.5, 50), the query from NYC to DC in mode DISTANCE returns the path
  NYC, PHL, DC with total distance 378, total time 5 and total cost 60, whichever least
  entry the priority queue hands out.
\<close>

theorem scenario_A:
  assumes "valid_pick pick"
  shows "findShortestPath pick demoGraph ''NYC'' ''DC'' DISTANCE =
     Some (Inr \<lparr>path = [''NYC'', ''PHL'', ''DC''], totalDistance = 378, totalTime = 5,
                totalCost = 60, found = True\<rparr>)"
proof -
  obtain d p q where st: "searchLoop pick demoGraph ''DC'' DISTANCE (initialState demoGraph ''NYC'')
     = Some \<lparr>distances = d, predecessors = p, pq = q\<rparr>" "d ''DC'' = Some (Val 378)"
       "p ''DC'' = Some ''PHL''" "p ''PHL'' = Some ''NYC''"
    using demo_search [OF assms] by blast
  have rec: "reconstructPath p ''NYC'' ''DC'' = Some [''NYC'', ''PHL'', ''DC'']"
    unfolding reconstructPath_def
    apply (subst reconstructLoop.simps, simp add: st)
    apply (subst reconstructLoop.simps, simp add: st)
    apply (subst reconstructLoop.simps, simp add: st)
    done
  show ?thesis
    by (simp add: findShortestPath_def getNode_def demoGraph_eq [THEN arg_cong [where f = nodes]]
          st distanceAt_def buildResult_def rec)
qed

theorem scenario_A_witness:
  "findShortestPath firstMin demoGraph ''NYC'' ''DC'' DISTANCE =
     Some (Inr \<lparr>path = [''NYC'', ''PHL'', ''DC''], totalDistance = 378, totalTime = 5,
                totalCost = 60, found = True\<rparr>)"
  using scenario_A [OF valid_pick_firstMin] .


lemma parallel_search:
  assumes "valid_pick pick"
  shows "\<exists>d p q. searchLoop pick parallelGraph ''B'' DISTANCE (initialState parallelGraph ''A'')
     = Some \<lparr>distances = d, predecessors = p, pq = q\<rparr> \<and> d ''B'' = Some (Val 5)
       \<and> p ''B'' = Some ''A''"
  apply (simp add: initialState_def initDistances_def getAllNodes_def parallel_nodes)
  apply (subst searchLoop.simps)
  apply (simp add: pick_single [OF assms] Let_def relaxEdge_def distanceAt_def getEdgeWeight_def DISTANCE_def)
  apply (subst searchLoop.simps)
  apply (simp add: pick_pair_second [OF assms] Let_def relaxEdge_def distanceAt_def getEdgeWeight_def DISTANCE_def)
  done

text \<open>
  Claim C4, on a network with two parallel edges from A to B: road (10, 1, 1), entered
  first, and rail (5, 9, 9). In mode DISTANCE the search reaches B over the rail edge
  (tentative distance 5), and the result carries the totals of the road edge, the first
  edge from A to B in the adjacency list: (10, 1, 1), not the (5, 9, 9) of the edge the
  found path runs over.
\<close>

theorem parallel_edges_totals:
  assumes "valid_pick pick"
  shows "findShortestPath pick parallelGraph ''A'' ''B'' DISTANCE =
           Some (Inr \<lparr>path = [''A'', ''B''], totalDistance = 10, totalTime = 1, totalCost = 1,
                      found = True\<rparr>) \<and>
         (\<exists>st. searchLoop pick parallelGraph ''B'' DISTANCE (initialState parallelGraph ''A'')
                 = Some st \<and> distanceAt (distances st) ''B'' = Val 5) \<and>
         edgeRail \<in> set (getOutgoingEdges parallelGraph ''A'') \<and> destId edgeRail = ''B'' \<and>
         weight edgeRail = 5 \<and> timeWeight edgeRail = 9 \<and> costWeight edgeRail = 9"
proof -
  obtain d p q where st:
    "searchLoop pick parallelGraph ''B'' DISTANCE (initialState parallelGraph ''A'')
       = Some \<lparr>distances = d, predecessors = p, pq = q\<rparr>"
    "d ''B'' = Some (Val 5)" "p ''B'' = Some ''A''"
    using parallel_search [OF assms] by blast
  have rec: "reconstructPath p ''A'' ''B'' = Some [''A'', ''B'']"
    unfolding reconstructPath_def
    apply (subst reconstructLoop.simps, simp add: st)
    apply (subst reconstructLoop.simps, simp add: st)
    done
  have 1: "findShortestPath pick parallelGraph ''A'' ''B'' DISTANCE =
           Some (Inr \<lparr>path = [''A'', ''B''], totalDistance = 10, totalTime = 1, totalCost = 1,
                      found = True\<rparr>)"
    by (simp add: findShortestPath_def getNode_def parallel_nodes
          st distanceAt_def buildResult_def rec)
  have 2: "\<exists>st. searchLoop pick parallelGraph ''B'' DISTANCE (initialState parallelGraph ''A'')
                 = Some st \<and> distanceAt (distances st) ''B'' = Val 5"
    using st by (simp add: distanceAt_def)
  show ?thesis using 1 2 by simp
qed

theorem parallel_edges_totals_witness:
  "findShortestPath firstMin parallelGraph ''A'' ''B'' DISTANCE =
           Some (Inr \<lparr>path = [''A'', ''B''], totalDistance = 10, totalTime = 1, totalCost = 1,
                      found = True\<rparr>) \<and>
         (\<exists>st. searchLoop firstMin parallelGraph ''B'' DISTANCE (initialState parallelGraph ''A'')
                 = Some st \<and> distanceAt (distances st) ''B'' = Val 5)"
  using parallel_edges_totals [OF valid_pick_firstMin] by simp


lemma reconstruct_missing_link:
  "reconstructPath Map.empty ''NYC'' ''DC'' = Some []"
  unfolding reconstructPath_def by (subst reconstructLoop.simps) simp


text \<open>
  Claim C2 does not hold: for the mode value 7, outside the four enumerators, the
  specification's weight function faults and the code returns the primary weight 306.
\<close>

theorem unlisted_mode_counterexample:
  "getEdgeWeight_spec edgeNYC_BOS 7 = Inl UnsupportedMode \<and>
   getEdgeWeight edgeNYC_BOS 7 = 306 \<and>
   Inr (getEdgeWeight edgeNYC_BOS 7) \<noteq> getEdgeWeight_spec edgeNYC_BOS 7"
  by (simp add: getEdgeWeight_spec_def getEdgeWeight_def DISTANCE_def TIME_def COST_def
        BALANCED_def)

text \<open>
  Claim C2, amended. For every edge and every mode value outside the four enumerators,
  \<open>getEdgeWeight\<close> returns the primary weight of the edge, as it does for DISTANCE.
\<close>

theorem unlisted_mode_default:
  assumes "mode \<noteq> DISTANCE" "mode \<noteq> TIME" "mode \<noteq> COST" "mode \<noteq> BALANCED"
  shows "getEdgeWeight edge mode = weight edge \<and>
         getEdgeWeight edge mode = getEdgeWeight edge DISTANCE"
  using assms by (simp add: getEdgeWeight_def)

theorem unlisted_mode_default_witness:
  "getEdgeWeight edgeNYC_BOS 7 = weight edgeNYC_BOS \<and>
   getEdgeWeight edgeNYC_BOS 7 = getEdgeWeight edgeNYC_BOS DISTANCE \<and>
   getEdgeWeight edgeNYC_BOS 7 = 306"
  using unlisted_mode_default [of 7 edgeNYC_BOS]
  by (simp add: DISTANCE_def TIME_def COST_def BALANCED_def)

section \<open>Import\<close>

lemma loadEdge_skip:
  assumes "ej_source ej = Some s" "ej_destination ej = Some d"
    "getNode g s = None \<or> getNode g d = None"
  shows "loadEdge ej g = Inr g"
  using assms by (auto simp: loadEdge_def split: option.splits)

lemma loadEdge_add:
  assumes "ej_source ej = Some s" "ej_destination ej = Some d"
    "getNode g s = Some sn" "getNode g d = Some dn" "ej_id ej = Some i" "ej_weight ej = Some w"
  shows "loadEdge ej g =
     Inr (snd (addEdge
       (Some \<lparr>edge_id = i, edge_source = Some sn, edge_destination = Some dn, weight = w,
               timeWeight = (case ej_time_weight ej of None \<Rightarrow> 0 | Some t \<Rightarrow> t),
               costWeight = (case ej_cost_weight ej of None \<Rightarrow> 0 | Some c \<Rightarrow> c)\<rparr>) g))"
  using assms by (simp add: loadEdge_def split: option.splits)

lemma addEdge_edges:
  "e \<in> set (edges (snd (addEdge (Some x) g))) \<Longrightarrow> e \<in> set (edges g) \<or> e = x"
  by (auto simp: addEdge_def split: if_splits)

lemma addEdge_nodes: "nodes (snd (addEdge x g)) = nodes g"
  by (auto simp: addEdge_def split: option.splits if_splits)

lemma getNode_id:
  "graph_inv g \<Longrightarrow> getNode g k = Some n \<Longrightarrow> node_id n = k"
  unfolding getNode_def graph_inv_def by (metis fst_conv map_of_SomeD snd_conv)

lemma loadEdge_step:
  assumes inv: "graph_inv g" and res: "loadEdge ej g = Inr g'"
  shows "graph_inv g' \<and> nodes g' = nodes g \<and>
         (\<forall>e \<in> set (edges g'). e \<in> set (edges g) \<or> importedFrom ej e)"
proof -
  obtain s d where sd: "ej_source ej = Some s" "ej_destination ej = Some d"
    using res by (auto simp: loadEdge_def split: option.splits)
  show ?thesis
  proof (cases "getNode g s = None \<or> getNode g d = None")
    case True
    then have "g' = g" using loadEdge_skip [OF sd] res by simp
    then show ?thesis using inv by simp
  next
    case False
    then obtain sn dn where n: "getNode g s = Some sn" "getNode g d = Some dn" by auto
    obtain i w where iw: "ej_id ej = Some i" "ej_weight ej = Some w"
      using res sd n by (auto simp: loadEdge_def split: option.splits)
    let ?e = "\<lparr>edge_id = i, edge_source = Some sn, edge_destination = Some dn, weight = w,
               timeWeight = (case ej_time_weight ej of None \<Rightarrow> 0 | Some t \<Rightarrow> t),
               costWeight = (case ej_cost_weight ej of None \<Rightarrow> 0 | Some c \<Rightarrow> c)\<rparr>"
    have g': "g' = snd (addEdge (Some ?e) g)"
      using loadEdge_add [OF sd n iw] res by simp
    have "importedFrom ej ?e"
      using sd iw getNode_id [OF inv n(1)] getNode_id [OF inv n(2)]
      by (simp add: importedFrom_def sourceId_def destId_def)
    then have "\<forall>e \<in> set (edges g'). e \<in> set (edges g) \<or> importedFrom ej e"
      unfolding g' using addEdge_edges by blast
    then show ?thesis
      using graph_inv_addEdge [OF inv] by (simp add: g' addEdge_nodes)
  qed
qed

lemma loadEdges_all:
  assumes "graph_inv g" "loadAll loadEdge es g = Inr g'"
  shows "graph_inv g' \<and> nodes g' = nodes g \<and>
         (\<forall>e \<in> set (edges g'). e \<in> set (edges g) \<or> (\<exists>ej \<in> set es. importedFrom ej e))"
  using assms
proof (induction es arbitrary: g)
  case Nil
  then show ?case by simp
next
  case (Cons ej es)
  then obtain g1 where g1: "loadEdge ej g = Inr g1" "loadAll loadEdge es g1 = Inr g'"
    by (auto split: sum.splits)
  note st = loadEdge_step [OF Cons.prems(1) g1(1)]
  have ih: "graph_inv g' \<and> nodes g' = nodes g1 \<and>
         (\<forall>e \<in> set (edges g'). e \<in> set (edges g1) \<or> (\<exists>ej \<in> set es. importedFrom ej e))"
    using Cons.IH [OF _ g1(2)] st by blast
  have "\<forall>e \<in> set (edges g'). e \<in> set (edges g) \<or> (\<exists>x \<in> set (ej # es). importedFrom x e)"
  proof
    fix e assume "e \<in> set (edges g')"
    then have "e \<in> set (edges g1) \<or> (\<exists>x \<in> set es. importedFrom x e)" using ih by blast
    then show "e \<in> set (edges g) \<or> (\<exists>x \<in> set (ej # es). importedFrom x e)"
      using st by auto
  qed
  then show ?case using ih st by simp
qed

lemma loadNode_step:
  assumes inv: "graph_inv g" and res: "loadNode nj g = Inr g'"
  shows "graph_inv g' \<and> edges g' = edges g \<and>
         (\<forall>k \<in> set (map fst (nodes g')). k \<in> set (map fst (nodes g)) \<or> nj_id nj = Some k)"
proof -
  obtain i where i: "nj_id nj = Some i" using res by (auto simp: loadNode_def split: option.splits)
  let ?n = "\<lparr>node_id = i, node_name = (case nj_name nj of None \<Rightarrow> [] | Some n \<Rightarrow> n)\<rparr>"
  have g': "g' = snd (addNode (Some ?n) g)" using res i by (simp add: loadNode_def)
  have "edges g' = edges g" unfolding g' by (simp add: addNode_def)
  moreover have "set (map fst (nodes g')) \<subseteq> insert i (set (map fst (nodes g)))"
    unfolding g' using dom_update [of i ?n "nodes g"] by (auto simp: addNode_def)
  then have "\<forall>k \<in> set (map fst (nodes g')). k \<in> set (map fst (nodes g)) \<or> nj_id nj = Some k"
    using i by auto
  ultimately show ?thesis using graph_inv_addNode [OF inv] g' by simp
qed

lemma loadNodes_all:
  assumes "graph_inv g" "loadAll loadNode ns g = Inr g'"
  shows "graph_inv g' \<and> edges g' = edges g \<and>
         (\<forall>k \<in> set (map fst (nodes g')).
            k \<in> set (map fst (nodes g)) \<or> (\<exists>nj \<in> set ns. nj_id nj = Some k))"
  using assms
proof (induction ns arbitrary: g)
  case Nil
  then show ?case by simp
next
  case (Cons nj ns)
  then obtain g1 where g1: "loadNode nj g = Inr g1" "loadAll loadNode ns g1 = Inr g'"
    by (auto split: sum.splits)
  note st = loadNode_step [OF Cons.prems(1) g1(1)]
  have ih: "graph_inv g' \<and> edges g' = edges g1 \<and>
         (\<forall>k \<in> set (map fst (nodes g')).
            k \<in> set (map fst (nodes g1)) \<or> (\<exists>nj \<in> set ns. nj_id nj = Some k))"
    using Cons.IH [OF _ g1(2)] st by blast
  have "\<forall>k \<in> set (map fst (nodes g')).
            k \<in> set (map fst (nodes g)) \<or> (\<exists>x \<in> set (nj # ns). nj_id x = Some k)"
  proof
    fix k assume "k \<in> set (map fst (nodes g'))"
    then have "k \<in> set (map fst (nodes g1)) \<or> (\<exists>x \<in> set ns. nj_id x = Some k)"
      using ih by blast
    then show "k \<in> set (map fst (nodes g)) \<or> (\<exists>x \<in> set (nj # ns). nj_id x = Some k)"
      using st by auto
  qed
  then show ?case using ih st by simp
qed

lemma loadNodes_total:
  "\<forall>nj \<in> set ns. nj_id nj \<noteq> None \<Longrightarrow> \<exists>g'. loadAll loadNode ns g = Inr g'"
  by (induction ns arbitrary: g) (auto simp: loadNode_def split: sum.splits)

lemma loadEdge_total:
  "ej_source ej \<noteq> None \<Longrightarrow> ej_destination ej \<noteq> None \<Longrightarrow> ej_id ej \<noteq> None \<Longrightarrow>
   ej_weight ej \<noteq> None \<Longrightarrow> \<exists>g'. loadEdge ej g = Inr g'"
  by (auto simp: loadEdge_def Let_def split: option.splits)

lemma loadEdges_total:
  "\<forall>ej \<in> set es. ej_source ej \<noteq> None \<and> ej_destination ej \<noteq> None \<and> ej_id ej \<noteq> None \<and>
      ej_weight ej \<noteq> None \<Longrightarrow> \<exists>g'. loadAll loadEdge es g = Inr g'"
proof (induction es arbitrary: g)
  case Nil
  then show ?case by simp
next
  case (Cons ej es)
  then obtain g1 where "loadEdge ej g = Inr g1"
    using loadEdge_total [of ej g] by auto
  then show ?case using Cons by auto
qed

text \<open>
  Claim C9. For every import record: an edge record whose source or destination key is
  not a node of the graph built so far is skipped (the graph stays as it is, nothing
  faults); an edge record with both endpoints present is added with a time weight and a
  cost weight of zero where the record has none; a record in which only those two
  members are missing is imported without a fault; and every edge of the imported graph
  comes from an edge record in this way and has both endpoints among the imported nodes.
\<close>

theorem import_tolerant:
  "(ej_source ej = Some s \<longrightarrow> ej_destination ej = Some d \<longrightarrow>
      getNode g s = None \<or> getNode g d = None \<longrightarrow> loadEdge ej g = Inr g) \<and>
   (ej_source ej = Some s \<longrightarrow> ej_destination ej = Some d \<longrightarrow>
      getNode g s = Some sn \<longrightarrow> getNode g d = Some dn \<longrightarrow>
      ej_id ej = Some i \<longrightarrow> ej_weight ej = Some w \<longrightarrow>
      loadEdge ej g =
        Inr (snd (addEdge
          (Some \<lparr>edge_id = i, edge_source = Some sn, edge_destination = Some dn, weight = w,
                  timeWeight = (case ej_time_weight ej of None \<Rightarrow> 0 | Some t \<Rightarrow> t),
                  costWeight = (case ej_cost_weight ej of None \<Rightarrow> 0 | Some c \<Rightarrow> c)\<rparr>) g))) \<and>
   ((\<forall>nj \<in> set ns. nj_id nj \<noteq> None) \<longrightarrow>
    (\<forall>x \<in> set es. ej_source x \<noteq> None \<and> ej_destination x \<noteq> None \<and> ej_id x \<noteq> None \<and>
        ej_weight x \<noteq> None) \<longrightarrow>
    (\<exists>g'. jsonToGraph \<lparr>gj_nodes = Some ns, gj_edges = Some es\<rparr> = Inr g')) \<and>
   (jsonToGraph \<lparr>gj_nodes = Some ns, gj_edges = Some es\<rparr> = Inr g' \<longrightarrow>
      (\<forall>k \<in> set (map fst (nodes g')). \<exists>nj \<in> set ns. nj_id nj = Some k) \<and>
      (\<forall>e \<in> set (getAllEdges g').
         getNode g' (sourceId e) \<noteq> None \<and> getNode g' (destId e) \<noteq> None \<and>
         (\<exists>x \<in> set es. importedFrom x e)))"
proof (intro conjI impI)
  show "loadEdge ej g = Inr g"
    if "ej_source ej = Some s" "ej_destination ej = Some d"
       "getNode g s = None \<or> getNode g d = None"
    using that by (rule loadEdge_skip)
next
  show "loadEdge ej g =
        Inr (snd (addEdge
          (Some \<lparr>edge_id = i, edge_source = Some sn, edge_destination = Some dn, weight = w,
                  timeWeight = (case ej_time_weight ej of None \<Rightarrow> 0 | Some t \<Rightarrow> t),
                  costWeight = (case ej_cost_weight ej of None \<Rightarrow> 0 | Some c \<Rightarrow> c)\<rparr>) g))"
    if "ej_source ej = Some s" "ej_destination ej = Some d"
       "getNode g s = Some sn" "getNode g d = Some dn" "ej_id ej = Some i" "ej_weight ej = Some w"
    using that by (rule loadEdge_add)
next
  assume a: "\<forall>nj \<in> set ns. nj_id nj \<noteq> None"
    "\<forall>x \<in> set es. ej_source x \<noteq> None \<and> ej_destination x \<noteq> None \<and> ej_id x \<noteq> None \<and>
        ej_weight x \<noteq> None"
  obtain g1 where "loadAll loadNode ns emptyGraph = Inr g1"
    using loadNodes_total [OF a(1)] by blast
  then show "\<exists>g'. jsonToGraph \<lparr>gj_nodes = Some ns, gj_edges = Some es\<rparr> = Inr g'"
    using loadEdges_total [OF a(2), of g1] by (simp add: jsonToGraph_def)
next
  assume r: "jsonToGraph \<lparr>gj_nodes = Some ns, gj_edges = Some es\<rparr> = Inr g'"
  then obtain g1 where g1: "loadAll loadNode ns emptyGraph = Inr g1"
      "loadAll loadEdge es g1 = Inr g'"
    by (auto simp: jsonToGraph_def split: sum.splits)
  note n = loadNodes_all [OF graph_inv_empty g1(1)]
  then have inv1: "graph_inv g1" and e1: "edges g1 = []"
    by (simp_all add: emptyGraph_def)
  note e = loadEdges_all [OF inv1 g1(2)]
  then have inv: "graph_inv g'" by simp
  show "\<forall>k \<in> set (map fst (nodes g')). \<exists>nj \<in> set ns. nj_id nj = Some k"
    using n e by (simp add: emptyGraph_def)
  show "\<forall>e \<in> set (getAllEdges g').
         getNode g' (sourceId e) \<noteq> None \<and> getNode g' (destId e) \<noteq> None \<and>
         (\<exists>x \<in> set es. importedFrom x e)"
  proof
    fix x assume x: "x \<in> set (getAllEdges g')"
    then have xe: "x \<in> set (edges g')" by (simp add: getAllEdges_def)
    have "getNode g' (sourceId x) \<noteq> None"
      using graph_inv_edge_source [OF inv xe] by (simp add: getNode_def map_of_None_keys)
    moreover have "getNode g' (destId x) \<noteq> None"
      using graph_inv_edge_dest [OF inv xe] by (simp add: getNode_def map_of_None_keys)
    moreover have "\<exists>y \<in> set es. importedFrom y x"
      using e xe e1 by auto
    ultimately show "getNode g' (sourceId x) \<noteq> None \<and> getNode g' (destId x) \<noteq> None \<and>
         (\<exists>y \<in> set es. importedFrom y x)" by blast
  qed
qed

theorem import_tolerant_witness:
  "\<exists>g'. jsonToGraph demoJson = Inr g' \<and> map fst (nodes g') = [''NYC'', ''BOS''] \<and>
     map edge_id (getAllEdges g') = [''NYC-BOS''] \<and>
     map weight (getAllEdges g') = [306] \<and>
     map timeWeight (getAllEdges g') = [0] \<and>
     map costWeight (getAllEdges g') = [0]"
proof -
  let ?ns = "[\<lparr>nj_id = Some ''NYC'', nj_name = Some ''New York City''\<rparr>,
              \<lparr>nj_id = Some ''BOS'', nj_name = None\<rparr>]"
  let ?e1 = "\<lparr>ej_id = Some ''NYC-BOS'', ej_source = Some ''NYC'',
               ej_destination = Some ''BOS'', ej_weight = Some 306,
               ej_time_weight = None, ej_cost_weight = None\<rparr>"
  let ?e2 = "\<lparr>ej_id = Some ''NYC-DC'', ej_source = Some ''NYC'',
               ej_destination = Some ''DC'', ej_weight = Some 378,
               ej_time_weight = Some 5, ej_cost_weight = Some 60\<rparr>"
  have "\<exists>g'. jsonToGraph \<lparr>gj_nodes = Some ?ns, gj_edges = Some [?e1, ?e2]\<rparr> = Inr g'"
    using import_tolerant [where ns = ?ns and es = "[?e1, ?e2]" and ej = ?e2 and s = "''NYC''"
        and d = "''DC''" and g = emptyGraph and g' = emptyGraph and sn = nodeNYC
        and dn = nodeDC and i = "''x''" and w = 0]
    by simp
  then obtain g' where g': "jsonToGraph demoJson = Inr g'"
    by (auto simp: demoJson_def)
  have "jsonToGraph demoJson =
      Inr \<lparr>nodes = [(''NYC'', \<lparr>node_id = ''NYC'', node_name = ''New York City''\<rparr>),
                    (''BOS'', \<lparr>node_id = ''BOS'', node_name = []\<rparr>)],
           adjacencyList =
             [(''NYC'', [\<lparr>edge_id = ''NYC-BOS'',
                  edge_source = Some \<lparr>node_id = ''NYC'', node_name = ''New York City''\<rparr>,
                  edge_destination = Some \<lparr>node_id = ''BOS'', node_name = []\<rparr>,
                  weight = 306, timeWeight = 0, costWeight = 0\<rparr>]),
              (''BOS'', [])],
           edges = [\<lparr>edge_id = ''NYC-BOS'',
                  edge_source = Some \<lparr>node_id = ''NYC'', node_name = ''New York City''\<rparr>,
                  edge_destination = Some \<lparr>node_id = ''BOS'', node_name = []\<rparr>,
                  weight = 306, timeWeight = 0, costWeight = 0\<rparr>]\<rparr>"
    by (simp add: jsonToGraph_def demoJson_def loadNode_def loadEdge_def addNode_def
          addEdge_def emptyGraph_def getNode_def sourceId_def destId_def Let_def)
  with g' show ?thesis by (auto simp add: getAllEdges_def)
qed

section \<open>The all-destinations query\<close>

lemma is_path_snoc:
  "is_path g u es v \<Longrightarrow> e \<in> set (getAllEdges g) \<Longrightarrow> sourceId e = v \<Longrightarrow>
     is_path g u (es @ [e]) (destId e)"
  by (induction es arbitrary: u) auto

lemma set_update_cases:
  "p \<in> set (AList.update k v al) \<Longrightarrow> p = (k, v) \<or> p \<in> set al"
  by (induction al) (auto split: if_splits)

lemma table_sound_touch:
  assumes "table_sound g source dists" "\<exists>es. is_path g source es k"
  shows "table_sound g source (touch k dists)"
  using assms unfolding table_sound_def touch_def
  by (auto simp: map_of_eq_None_iff)

lemma table_sound_update:
  assumes "table_sound g source dists" "\<exists>es. is_path g source es k"
  shows "table_sound g source (AList.update k v dists)"
  unfolding table_sound_def
proof (intro conjI ballI impI)
  show "distinct (map fst (AList.update k v dists))"
    using assms(1) by (simp add: table_sound_def distinct_update)
next
  fix p assume "p \<in> set (AList.update k v dists)" "snd p \<noteq> PosInf"
  then have "p = (k, v) \<or> p \<in> set dists" using set_update_cases by fast
  then show "\<exists>es. is_path g source es (fst p)"
    using assms \<open>snd p \<noteq> PosInf\<close> unfolding table_sound_def by auto
qed

lemma keys_touch: "set (map fst dists) \<subseteq> set (map fst (touch k dists))"
  by (auto simp: touch_def)

lemma keys_updateNeighbor:
  "set (map fst dists) \<subseteq> set (map fst (updateNeighbor mode minNode processed dists e))"
proof -
  have "set (map fst dists) \<subseteq> set (map fst (touch (destId e) (touch minNode dists)))"
    using keys_touch by (meson order_trans)
  then show ?thesis
    by (auto simp: updateNeighbor_def Let_def dom_update)
qed

lemma table_sound_updateNeighbor:
  assumes inv: "graph_inv g" and ts: "table_sound g source dists"
    and r: "\<exists>es. is_path g source es minNode"
    and e: "e \<in> set (getOutgoingEdges g minNode)"
  shows "table_sound g source (updateNeighbor mode minNode processed dists e)"
proof -
  have "e \<in> set (getAllEdges g)" "sourceId e = minNode"
    using e set_outgoing [OF inv] by (simp_all add: getAllEdges_def)
  then have r': "\<exists>es. is_path g source es (destId e)"
    using r is_path_snoc by blast
  have "table_sound g source (touch (destId e) (touch minNode dists))"
    using ts r r' by (simp add: table_sound_touch)
  then show ?thesis
    using ts r' by (simp add: updateNeighbor_def Let_def table_sound_update)
qed

lemma table_sound_foldl:
  assumes inv: "graph_inv g" and r: "\<exists>es. is_path g source es minNode"
  shows "table_sound g source dists \<Longrightarrow> set es \<subseteq> set (getOutgoingEdges g minNode) \<Longrightarrow>
     table_sound g source (foldl (updateNeighbor mode minNode processed) dists es) \<and>
     set (map fst dists) \<subseteq> set (map fst (foldl (updateNeighbor mode minNode processed) dists es))"
proof (induction es arbitrary: dists)
  case Nil
  then show ?case by simp
next
  case (Cons e es)
  have 1: "table_sound g source (updateNeighbor mode minNode processed dists e)"
    using table_sound_updateNeighbor [OF inv Cons.prems(1) r] Cons.prems(2) by simp
  have 2: "set (map fst dists) \<subseteq> set (map fst (updateNeighbor mode minNode processed dists e))"
    by (rule keys_updateNeighbor)
  show ?case
    using Cons.IH [OF 1] Cons.prems(2) 2 by auto
qed

lemma scanMin_entry_aux:
  "foldl (\<lambda>(minDist, minNode) (k, dist).
              if k \<notin> set processed \<and> dbl_less dist minDist then (dist, k)
              else (minDist, minNode)) acc dists = (m, n) \<Longrightarrow>
   (m, n) = acc \<or> (n, m) \<in> set dists"
proof (induction dists arbitrary: acc)
  case Nil
  then show ?case by simp
next
  case (Cons a dists)
  obtain k d where a: "a = (k, d)" by (cases a)
  obtain m0 n0 where acc: "acc = (m0, n0)" by (cases acc)
  show ?case
  proof (cases "k \<notin> set processed \<and> dbl_less d m0")
    case True
    then have "(m, n) = (d, k) \<or> (n, m) \<in> set dists"
      using Cons.IH [of "(d, k)"] Cons.prems a acc by simp
    then show ?thesis using a by auto
  next
    case False
    then have "(m, n) = acc \<or> (n, m) \<in> set dists"
      using Cons.IH [of acc] Cons.prems a acc by auto
    then show ?thesis by auto
  qed
qed

lemma scanMin_entry:
  "scanMin processed dists = (m, n) \<Longrightarrow> m \<noteq> PosInf \<Longrightarrow> (n, m) \<in> set dists"
  unfolding scanMin_def using scanMin_entry_aux [of processed "(PosInf, [])" dists m n] by auto

declare pathsLoop.simps [simp del]

lemma table_sound_pathsLoop:
  assumes inv: "graph_inv g"
  shows "table_sound g source dists \<Longrightarrow>
     table_sound g source (pathsLoop g mode processed dists) \<and>
     set (map fst dists) \<subseteq> set (map fst (pathsLoop g mode processed dists))"
  using inv
proof (induction g mode processed dists rule: pathsLoop.induct)
  case (1 g mode processed dists)
  show ?case
  proof (cases "length processed < getNodeCount g")
    case False
    then show ?thesis using "1.prems" by (subst (1 2) pathsLoop.simps) simp
  next
    case True
    obtain minDist minNode where sm: "scanMin processed dists = (minDist, minNode)"
      by (cases "scanMin processed dists")
    show ?thesis
    proof (cases "minDist = PosInf")
      case True
      then show ?thesis using "1.prems" sm by (subst (1 2) pathsLoop.simps) simp
    next
      case False
      let ?d = "foldl (updateNeighbor mode minNode (List.insert minNode processed)) dists
                  (getOutgoingEdges g minNode)"
      have "(minNode, minDist) \<in> set dists" using scanMin_entry [OF sm False] .
      then have r: "\<exists>es. is_path g source es minNode"
        using "1.prems"(1) False unfolding table_sound_def by fastforce
      have f: "table_sound g source ?d \<and> set (map fst dists) \<subseteq> set (map fst ?d)"
        using table_sound_foldl [OF "1.prems"(2) r "1.prems"(1)] by simp
      have ih: "table_sound g source (pathsLoop g mode (List.insert minNode processed) ?d) \<and>
           set (map fst ?d) \<subseteq> set (map fst (pathsLoop g mode (List.insert minNode processed) ?d))"
        using "1.IH" [OF True sm [symmetric] False] f "1.prems"(2) by blast
      have eq: "pathsLoop g mode processed dists =
                pathsLoop g mode (List.insert minNode processed) ?d"
        using True sm False by (subst pathsLoop.simps) simp
      show ?thesis unfolding eq using ih f by blast
    qed
  qed
qed

lemma initDistanceList_aux:
  "distinct (map fst d) \<Longrightarrow> (\<forall>p \<in> set d. snd p \<noteq> PosInf \<longrightarrow> fst p = source) \<Longrightarrow>
   distinct (map fst (fold (\<lambda>node d. AList.update (node_id node)
                      (if node_id node = source then Val 0 else PosInf) d) ns d)) \<and>
   (\<forall>p \<in> set (fold (\<lambda>node d. AList.update (node_id node)
                      (if node_id node = source then Val 0 else PosInf) d) ns d).
       snd p \<noteq> PosInf \<longrightarrow> fst p = source) \<and>
   set (map fst (fold (\<lambda>node d. AList.update (node_id node)
                      (if node_id node = source then Val 0 else PosInf) d) ns d))
     = set (map fst d) \<union> set (map node_id ns)"
proof (induction ns arbitrary: d)
  case Nil
  then show ?case by simp
next
  case (Cons n ns)
  let ?d = "AList.update (node_id n) (if node_id n = source then Val 0 else PosInf) d"
  have 1: "distinct (map fst ?d)" using Cons.prems(1) by (simp add: distinct_update)
  have 2: "\<forall>p \<in> set ?d. snd p \<noteq> PosInf \<longrightarrow> fst p = source"
  proof (intro ballI impI)
    fix p assume "p \<in> set ?d" "snd p \<noteq> PosInf"
    then have "p = (node_id n, if node_id n = source then Val 0 else PosInf) \<or> p \<in> set d"
      using set_update_cases by fast
    then show "fst p = source" using Cons.prems(2) \<open>snd p \<noteq> PosInf\<close> by (auto split: if_splits)
  qed
  have 3: "set (map fst ?d) = insert (node_id n) (set (map fst d))"
    using dom_update [of "node_id n" _ d] by simp
  show ?case using Cons.IH [OF 1 2] 3 by auto
qed

lemma initDistanceList_sound:
  "table_sound g source (initDistanceList g source) \<and>
   set (map fst (initDistanceList g source)) = set (map node_id (getAllNodes g))"
proof -
  have "is_path g source [] source" by simp
  then have "\<exists>es. is_path g source es source" by blast
  then show ?thesis
    using initDistanceList_aux [of "[]" source "getAllNodes g"]
    unfolding table_sound_def initDistanceList_def by auto
qed



section \<open>The single-pair search\<close>

lemma dle_mono: "dle d v x \<Longrightarrow> x \<le> y \<Longrightarrow> dle d v y"
  unfolding dle_def by force

lemma not_less_dle: "\<not> dbl_less (Val x) (distanceAt d v) \<Longrightarrow> dle d v x"
  unfolding dle_def by (cases "distanceAt d v") auto

lemma distanceAt_upd:
  "distanceAt (d(n \<mapsto> z)) v = (if v = n then z else distanceAt d v)"
  by (simp add: distanceAt_def)

lemma relaxEdge_step:
  assumes inv: "relax_inv g mode s u x st"
    and e: "e \<in> set (getOutgoingEdges g u)"
    and w: "0 \<le> getEdgeWeight e mode"
  shows "relax_inv g mode s u x (relaxEdge mode \<lparr>nodeId = u, distance = x\<rparr> st e) \<and>
         dle (distances (relaxEdge mode \<lparr>nodeId = u, distance = x\<rparr> st e)) (destId e)
           (x + getEdgeWeight e mode) \<and>
         (\<forall>v z. dle (distances st) v z \<longrightarrow>
            dle (distances (relaxEdge mode \<lparr>nodeId = u, distance = x\<rparr> st e)) v z)"
proof (cases "dbl_less (Val (x + getEdgeWeight e mode)) (distanceAt (distances st) (destId e))")
  case False
  then have "relaxEdge mode \<lparr>nodeId = u, distance = x\<rparr> st e = st"
    by (simp add: relaxEdge_def Let_def)
  then show ?thesis using inv not_less_dle [OF False] by simp
next
  case True
  define n where "n = destId e"
  define dist where "dist = x + getEdgeWeight e mode"
  define d where "d = distances st"
  define d' where "d' = d(n \<mapsto> Val dist)"
  define st' where "st' = st\<lparr>distances := d', predecessors := (predecessors st)(n \<mapsto> u),
                              pq := pq st @ [\<lparr>nodeId = n, distance = dist\<rparr>]\<rparr>"
  have st': "relaxEdge mode \<lparr>nodeId = u, distance = x\<rparr> st e = st'"
    using True by (simp add: relaxEdge_def st'_def d'_def d_def n_def dist_def Let_def)
  have less: "dbl_less (Val dist) (distanceAt d n)"
    using True by (simp add: n_def dist_def d_def)
  have s0: "distanceAt d s = Val 0" and ux: "distanceAt d u = Val x" and x0: "0 \<le> x"
    using inv by (simp_all add: relax_inv_def d_def)
  have dist0: "0 \<le> dist" and xdist: "x \<le> dist" using x0 w by (simp_all add: dist_def)
  have nu: "n \<noteq> u" using less ux xdist by auto
  have ns: "n \<noteq> s" using less s0 dist0 by auto
  have at': "\<And>v. distanceAt d' v = (if v = n then Val dist else distanceAt d v)"
    by (simp add: d'_def distanceAt_upd)
  have mono: "dle d' v z" if h: "dle d v z" for v z
  proof (cases "v = n")
    case True
    then obtain y where "distanceAt d n = Val y" "y \<le> z" using h by (auto simp: dle_def)
    then have "dist \<le> z" using less by simp
    then show ?thesis using True by (simp add: dle_def at')
  next
    case False
    then show ?thesis using h by (simp add: dle_def at')
  qed
  have sel: "distances st' = d'" "pq st' = pq st @ [\<lparr>nodeId = n, distance = dist\<rparr>]"
    "predecessors st' = (predecessors st)(n \<mapsto> u)"
    by (simp_all add: st'_def)
  have 1: "distanceAt d' s = Val 0" using s0 ns by (simp add: at')
  have 2: "distanceAt d' u = Val x" using ux nu by (simp add: at')
  have 3: "\<forall>nd \<in> set (pq st'). 0 \<le> distance nd \<and> dle d' (nodeId nd) (distance nd)"
  proof
    fix nd assume "nd \<in> set (pq st')"
    then have "nd \<in> set (pq st) \<or> nd = \<lparr>nodeId = n, distance = dist\<rparr>" by (auto simp: sel)
    then show "0 \<le> distance nd \<and> dle d' (nodeId nd) (distance nd)"
    proof
      assume "nd \<in> set (pq st)"
      then have "0 \<le> distance nd \<and> dle d (nodeId nd) (distance nd)"
        using inv by (simp add: relax_inv_def d_def)
      then show ?thesis using mono by blast
    next
      assume "nd = \<lparr>nodeId = n, distance = dist\<rparr>"
      then show ?thesis using dist0 by (simp add: dle_def at')
    qed
  qed
  have 4: "\<forall>v y. v \<noteq> u \<longrightarrow> distanceAt d' v = Val y \<longrightarrow>
        \<lparr>nodeId = v, distance = y\<rparr> \<in> set (pq st') \<or>
        (\<forall>e \<in> set (getOutgoingEdges g v). dle d' (destId e) (y + getEdgeWeight e mode))"
  proof (intro allI impI)
    fix v y assume v: "v \<noteq> u" "distanceAt d' v = Val y"
    show "\<lparr>nodeId = v, distance = y\<rparr> \<in> set (pq st') \<or>
        (\<forall>e \<in> set (getOutgoingEdges g v). dle d' (destId e) (y + getEdgeWeight e mode))"
    proof (cases "v = n")
      case True
      then have "y = dist" using v(2) by (simp add: at')
      then show ?thesis using True by (simp add: sel)
    next
      case False
      then have "distanceAt d v = Val y" using v(2) by (simp add: at')
      then have "\<lparr>nodeId = v, distance = y\<rparr> \<in> set (pq st) \<or>
        (\<forall>e \<in> set (getOutgoingEdges g v). dle d (destId e) (y + getEdgeWeight e mode))"
        using inv v(1) unfolding relax_inv_def d_def by blast
      then show ?thesis using mono by (auto simp: sel)
    qed
  qed
  have 5: "\<forall>v w. predecessors st' v = Some w \<longrightarrow>
        (\<exists>e \<in> set (getOutgoingEdges g w). destId e = v \<and>
           (\<exists>a b. distanceAt d' w = Val a \<and> distanceAt d' v = Val b \<and>
                  a + getEdgeWeight e mode \<le> b))"
  proof (intro allI impI)
    fix v w assume p: "predecessors st' v = Some w"
    show "\<exists>e \<in> set (getOutgoingEdges g w). destId e = v \<and>
           (\<exists>a b. distanceAt d' w = Val a \<and> distanceAt d' v = Val b \<and>
                  a + getEdgeWeight e mode \<le> b)"
    proof (cases "v = n")
      case True
      then have "w = u" using p by (simp add: sel)
      moreover have "distanceAt d' u = Val x" by (rule 2)
      moreover have "distanceAt d' n = Val dist" by (simp add: at')
      ultimately show ?thesis using e True by (auto simp: n_def dist_def)
    next
      case False
      then have "predecessors st v = Some w" using p by (simp add: sel)
      then obtain e' a b where e': "e' \<in> set (getOutgoingEdges g w)" "destId e' = v"
          "distanceAt d w = Val a" "distanceAt d v = Val b" "a + getEdgeWeight e' mode \<le> b"
        using inv unfolding relax_inv_def d_def by blast
      have "dle d w a" using e'(3) by (simp add: dle_def)
      then have "dle d' w a" by (rule mono)
      then obtain a' where a': "distanceAt d' w = Val a'" "a' \<le> a" by (auto simp: dle_def)
      have "distanceAt d' v = Val b" using False e'(4) by (simp add: at')
      then show ?thesis using e'(1,2,5) a' by force
    qed
  qed
  have "relax_inv g mode s u x st'"
    unfolding relax_inv_def sel using 1 2 x0 3 4 5 by (simp add: sel)
  moreover have "dle d' (destId e) (x + getEdgeWeight e mode)"
    by (simp add: dle_def at' n_def dist_def)
  ultimately show ?thesis
    unfolding st' using mono by (simp add: sel d_def)
qed

lemma relax_fold:
  assumes w: "\<forall>e \<in> set (getOutgoingEdges g u). 0 \<le> getEdgeWeight e mode"
  shows "relax_inv g mode s u x st \<Longrightarrow> set es \<subseteq> set (getOutgoingEdges g u) \<Longrightarrow>
     relax_inv g mode s u x (foldl (relaxEdge mode \<lparr>nodeId = u, distance = x\<rparr>) st es) \<and>
     (\<forall>e \<in> set es.
        dle (distances (foldl (relaxEdge mode \<lparr>nodeId = u, distance = x\<rparr>) st es)) (destId e)
          (x + getEdgeWeight e mode)) \<and>
     (\<forall>v z. dle (distances st) v z \<longrightarrow>
        dle (distances (foldl (relaxEdge mode \<lparr>nodeId = u, distance = x\<rparr>) st es)) v z)"
proof (induction es arbitrary: st)
  case Nil
  then show ?case by simp
next
  case (Cons e es)
  let ?cur = "\<lparr>nodeId = u, distance = x\<rparr>"
  let ?st1 = "relaxEdge mode ?cur st e"
  let ?st2 = "foldl (relaxEdge mode ?cur) ?st1 es"
  have e: "e \<in> set (getOutgoingEdges g u)" using Cons.prems(2) by simp
  then have we: "0 \<le> getEdgeWeight e mode" using w by blast
  have sub: "set es \<subseteq> set (getOutgoingEdges g u)" using Cons.prems(2) by simp
  note step = relaxEdge_step [OF Cons.prems(1) e we]
  have A1: "relax_inv g mode s u x ?st1"
    and A2: "dle (distances ?st1) (destId e) (x + getEdgeWeight e mode)"
    and A3: "\<forall>v z. dle (distances st) v z \<longrightarrow> dle (distances ?st1) v z"
    using step by blast+
  note ih = Cons.IH [OF A1 sub]
  have B1: "relax_inv g mode s u x ?st2"
    and B2: "\<forall>e \<in> set es. dle (distances ?st2) (destId e) (x + getEdgeWeight e mode)"
    and B3: "\<forall>v z. dle (distances ?st1) v z \<longrightarrow> dle (distances ?st2) v z"
    using ih by blast+
  have eq: "foldl (relaxEdge mode ?cur) st (e # es) = ?st2" by simp
  have C2: "\<forall>e' \<in> set (e # es). dle (distances ?st2) (destId e') (x + getEdgeWeight e' mode)"
  proof
    fix e' assume "e' \<in> set (e # es)"
    then have "e' = e \<or> e' \<in> set es" by auto
    then show "dle (distances ?st2) (destId e') (x + getEdgeWeight e' mode)"
      using A2 B2 B3 by blast
  qed
  have C3: "\<forall>v z. dle (distances st) v z \<longrightarrow> dle (distances ?st2) v z"
    using A3 B3 by blast
  show ?case unfolding eq using B1 C2 C3 by blast
qed

lemma set_remove_nth_subset: "set (take i q @ drop (Suc i) q) \<subseteq> set q"
  by (auto dest: in_set_takeD in_set_dropD)

lemma set_remove_nth_other:
  assumes "i < length q" "x \<in> set q" "x \<noteq> q ! i"
  shows "x \<in> set (take i q @ drop (Suc i) q)"
proof -
  have eq: "set (take i q @ q ! i # drop (Suc i) q) = set q"
    using id_take_nth_drop [OF assms(1), symmetric] by (rule arg_cong)
  have "x \<in> set (take i q @ q ! i # drop (Suc i) q)"
    using assms(2) unfolding eq .
  then show ?thesis using assms(3) by auto
qed

lemma getEdgeWeight_nonneg:
  assumes "0 \<le> weight e" "0 \<le> timeWeight e" "0 \<le> costWeight e"
  shows "0 \<le> getEdgeWeight e mode"
  using assms by (simp add: getEdgeWeight_def Let_def)

lemma nonneg_edge:
  "nonneg_weights g \<Longrightarrow> e \<in> set (getAllEdges g) \<Longrightarrow> 0 \<le> getEdgeWeight e mode"
  unfolding nonneg_weights_def using getEdgeWeight_nonneg by blast

lemma nonneg_outgoing:
  assumes "graph_inv g" "nonneg_weights g"
  shows "\<forall>e \<in> set (getOutgoingEdges g u). 0 \<le> getEdgeWeight e mode"
  using assms nonneg_edge set_outgoing [OF assms(1)] by (simp add: getAllEdges_def)

lemma path_score_nonneg:
  "nonneg_weights g \<Longrightarrow> is_path g v es t \<Longrightarrow> 0 \<le> path_score mode es"
proof (induction es arbitrary: v)
  case Nil
  then show ?case by (simp add: path_score_def)
next
  case (Cons e es)
  then have "0 \<le> getEdgeWeight e mode" "0 \<le> path_score mode es"
    using nonneg_edge by auto
  then show ?case by (simp add: path_score_def)
qed

lemma path_score_Cons: "path_score mode (e # es) = getEdgeWeight e mode + path_score mode es"
  by (simp add: path_score_def)

lemma path_lower_bound:
  assumes gi: "graph_inv g" and nn: "nonneg_weights g"
    and I2: "\<forall>v y. distanceAt d v = Val y \<longrightarrow>
        \<lparr>nodeId = v, distance = y\<rparr> \<in> Q \<or>
        (\<forall>e \<in> set (getOutgoingEdges g v). dle d (destId e) (y + getEdgeWeight e mode))"
    and H: "\<forall>nd \<in> Q. dle d t (distance nd)"
  shows "is_path g v es t \<Longrightarrow> distanceAt d v = Val y \<Longrightarrow> dle d t (y + path_score mode es)"
proof (induction es arbitrary: v y)
  case Nil
  then show ?case by (simp add: dle_def path_score_def)
next
  case (Cons e es)
  have e: "e \<in> set (getAllEdges g)" "sourceId e = v" and rest: "is_path g (destId e) es t"
    using Cons.prems(1) by simp_all
  have sc: "0 \<le> path_score mode (e # es)"
    using path_score_nonneg [OF nn Cons.prems(1)] .
  from I2 Cons.prems(2)
  have "\<lparr>nodeId = v, distance = y\<rparr> \<in> Q \<or>
        (\<forall>e \<in> set (getOutgoingEdges g v). dle d (destId e) (y + getEdgeWeight e mode))"
    by blast
  then show ?case
  proof
    assume "\<lparr>nodeId = v, distance = y\<rparr> \<in> Q"
    then have "dle d t y" using H by force
    then show ?thesis using sc dle_mono [of d t y "y + path_score mode (e # es)"] by simp
  next
    assume cl: "\<forall>e \<in> set (getOutgoingEdges g v). dle d (destId e) (y + getEdgeWeight e mode)"
    have "e \<in> set (getOutgoingEdges g v)"
      using e set_outgoing [OF gi] by (simp add: getAllEdges_def)
    then obtain y' where y': "distanceAt d (destId e) = Val y'" "y' \<le> y + getEdgeWeight e mode"
      using cl by (auto simp: dle_def)
    have "dle d t (y' + path_score mode es)"
      using Cons.IH [OF rest y'(1)] .
    then show ?thesis
      by (rule dle_mono) (use y'(2) in \<open>simp add: path_score_Cons\<close>)
  qed
qed

lemma search_post_intro:
  assumes gi: "graph_inv g" and nn: "nonneg_weights g"
    and inv: "search_inv g mode s st"
    and H: "\<forall>nd \<in> set (pq st). dle (distances st) t (distance nd)"
    and same: "distances st' = distances st" "predecessors st' = predecessors st"
  shows "search_post g mode s t st'"
proof -
  have s0: "distanceAt (distances st) s = Val 0" using inv by (simp add: search_inv_def)
  have I2: "\<forall>v y. distanceAt (distances st) v = Val y \<longrightarrow>
        \<lparr>nodeId = v, distance = y\<rparr> \<in> set (pq st) \<or>
        (\<forall>e \<in> set (getOutgoingEdges g v).
            dle (distances st) (destId e) (y + getEdgeWeight e mode))"
    using inv unfolding search_inv_def by blast
  have "dle (distances st) t (path_score mode es)" if "is_path g s es t" for es
    using path_lower_bound [OF gi nn I2 H that s0] by simp
  then show ?thesis
    using inv unfolding search_post_def search_inv_def same by blast
qed

lemmas searchLoop_induct = searchLoop.raw_induct [rotated 1, consumes 1, case_names step]

lemma search_loop_post:
  assumes run: "searchLoop pick g t mode st = Some st'"
  shows "valid_pick pick \<Longrightarrow> graph_inv g \<Longrightarrow> nonneg_weights g \<Longrightarrow> search_inv g mode s st \<Longrightarrow>
         search_post g mode s t st'"
  using run
proof (induction rule: searchLoop_induct)
  case (step loop pick g t mode st st')
  note vp = step.prems(1) and gi = step.prems(2) and nn = step.prems(3) and inv = step.prems(4)
  show ?case
  proof (cases "pq st = []")
    case True
    then have "st' = st" using step.hyps by simp
    then show ?thesis
      using search_post_intro [OF gi nn inv, of t st] True by simp
  next
    case False
    define i where "i = pick (pq st)"
    define cur where "cur = pq st ! i"
    define st1 where "st1 = st\<lparr>pq := take i (pq st) @ drop (Suc i) (pq st)\<rparr>"
    have i: "i < length (pq st)" and least: "\<forall>nd \<in> set (pq st). distance cur \<le> distance nd"
      using vp False unfolding valid_pick_def i_def cur_def by blast+
    have cur_mem: "cur \<in> set (pq st)" using i by (simp add: cur_def)
    have sel1: "distances st1 = distances st" "predecessors st1 = predecessors st"
       "pq st1 = take i (pq st) @ drop (Suc i) (pq st)"
      by (simp_all add: st1_def)
    have cur0: "0 \<le> distance cur" and curle: "dle (distances st) (nodeId cur) (distance cur)"
      using inv cur_mem unfolding search_inv_def by blast+
    have body: "(if nodeId cur = t then Some st1
           else if dbl_less (distanceAt (distances st1) (nodeId cur)) (Val (distance cur))
             then loop pick g t mode st1
           else loop pick g t mode
                  (foldl (relaxEdge mode cur) st1 (getOutgoingEdges g (nodeId cur)))) = Some st'"
      unfolding i_def cur_def st1_def
      using step.hyps False by (simp only: if_False Let_def)
    show ?thesis
    proof (cases "nodeId cur = t")
      case True
      then have "st' = st1" using body by simp
      moreover have "\<forall>nd \<in> set (pq st). dle (distances st) t (distance nd)"
        using curle least True dle_mono by blast
      ultimately show ?thesis
        using search_post_intro [OF gi nn inv _ sel1(1,2)] by simp
    next
      case nt: False
      obtain y where y: "distanceAt (distances st) (nodeId cur) = Val y" "y \<le> distance cur"
        using curle by (auto simp: dle_def)
      show ?thesis
      proof (cases "dbl_less (distanceAt (distances st1) (nodeId cur)) (Val (distance cur))")
        case True
        then have run1: "loop pick g t mode st1 = Some st'" using body nt by simp
        have stale: "y < distance cur" using True y by (simp add: sel1)
        have "search_inv g mode s st1"
          unfolding search_inv_def sel1
        proof (intro conjI ballI allI impI)
          show "distanceAt (distances st) s = Val 0" using inv by (simp add: search_inv_def)
        next
          fix nd assume "nd \<in> set (take i (pq st) @ drop (Suc i) (pq st))"
          then have "nd \<in> set (pq st)" using set_remove_nth_subset by fast
          then show "0 \<le> distance nd" "dle (distances st) (nodeId nd) (distance nd)"
            using inv unfolding search_inv_def by blast+
        next
          fix v z assume vz: "distanceAt (distances st) v = Val z"
          then have "\<lparr>nodeId = v, distance = z\<rparr> \<in> set (pq st) \<or>
            (\<forall>e \<in> set (getOutgoingEdges g v).
                dle (distances st) (destId e) (z + getEdgeWeight e mode))"
            using inv unfolding search_inv_def by blast
          moreover have "\<lparr>nodeId = v, distance = z\<rparr> \<noteq> cur"
          proof
            assume "\<lparr>nodeId = v, distance = z\<rparr> = cur"
            then have "nodeId cur = v" "distance cur = z" by auto
            then show False using vz y stale by simp
          qed
          ultimately show "\<lparr>nodeId = v, distance = z\<rparr>
              \<in> set (take i (pq st) @ drop (Suc i) (pq st)) \<or>
            (\<forall>e \<in> set (getOutgoingEdges g v).
                dle (distances st) (destId e) (z + getEdgeWeight e mode))"
            using set_remove_nth_other [OF i] unfolding cur_def by blast
        next
          fix v w assume "predecessors st v = Some w"
          then show "\<exists>e \<in> set (getOutgoingEdges g w). destId e = v \<and>
             (\<exists>a b. distanceAt (distances st) w = Val a \<and> distanceAt (distances st) v = Val b \<and>
                  a + getEdgeWeight e mode \<le> b)"
            using inv unfolding search_inv_def by blast
        qed
        then show ?thesis using step.IH [OF run1 vp gi nn] by simp
      next
        case False
        define u where "u = nodeId cur"
        define x where "x = distance cur"
        have cur_eq: "cur = \<lparr>nodeId = u, distance = x\<rparr>" by (simp add: u_def x_def)
        let ?st2 = "foldl (relaxEdge mode cur) st1 (getOutgoingEdges g u)"
        have run2: "loop pick g t mode ?st2 = Some st'"
          using body nt False by (simp add: u_def)
        have yx: "y = x" using False y by (simp add: sel1 x_def)
        have ux: "distanceAt (distances st) u = Val x" using y yx by (simp add: u_def)
        have rinv: "relax_inv g mode s u x st1"
          unfolding relax_inv_def sel1
        proof (intro conjI ballI allI impI)
          show "distanceAt (distances st) s = Val 0" using inv by (simp add: search_inv_def)
          show "distanceAt (distances st) u = Val x" by (rule ux)
          show "0 \<le> x" using cur0 by (simp add: x_def)
        next
          fix nd assume "nd \<in> set (take i (pq st) @ drop (Suc i) (pq st))"
          then have "nd \<in> set (pq st)" using set_remove_nth_subset by fast
          then show "0 \<le> distance nd" "dle (distances st) (nodeId nd) (distance nd)"
            using inv unfolding search_inv_def by blast+
        next
          fix v z assume vz: "v \<noteq> u" "distanceAt (distances st) v = Val z"
          then have "\<lparr>nodeId = v, distance = z\<rparr> \<in> set (pq st) \<or>
            (\<forall>e \<in> set (getOutgoingEdges g v).
                dle (distances st) (destId e) (z + getEdgeWeight e mode))"
            using inv unfolding search_inv_def by blast
          moreover have "\<lparr>nodeId = v, distance = z\<rparr> \<noteq> cur"
            using vz(1) cur_eq by auto
          ultimately show "\<lparr>nodeId = v, distance = z\<rparr>
              \<in> set (take i (pq st) @ drop (Suc i) (pq st)) \<or>
            (\<forall>e \<in> set (getOutgoingEdges g v).
                dle (distances st) (destId e) (z + getEdgeWeight e mode))"
            using set_remove_nth_other [OF i] unfolding cur_def by blast
        next
          fix v w assume "predecessors st v = Some w"
          then show "\<exists>e \<in> set (getOutgoingEdges g w). destId e = v \<and>
             (\<exists>a b. distanceAt (distances st) w = Val a \<and> distanceAt (distances st) v = Val b \<and>
                  a + getEdgeWeight e mode \<le> b)"
            using inv unfolding search_inv_def by blast
        qed
        have fold: "relax_inv g mode s u x ?st2 \<and>
           (\<forall>e \<in> set (getOutgoingEdges g u).
              dle (distances ?st2) (destId e) (x + getEdgeWeight e mode))"
          using relax_fold [where g = g and u = u and mode = mode and s = s and x = x
              and st = st1 and es = "getOutgoingEdges g u"] nonneg_outgoing [OF gi nn] rinv
          unfolding cur_eq by blast
        have "search_inv g mode s ?st2"
          unfolding search_inv_def
        proof (intro conjI allI impI)
          show "distanceAt (distances ?st2) s = Val 0"
            using fold by (simp add: relax_inv_def)
          show "\<forall>nd \<in> set (pq ?st2). 0 \<le> distance nd \<and>
              dle (distances ?st2) (nodeId nd) (distance nd)"
            using fold by (simp add: relax_inv_def)
        next
          fix v z assume vz: "distanceAt (distances ?st2) v = Val z"
          show "\<lparr>nodeId = v, distance = z\<rparr> \<in> set (pq ?st2) \<or>
            (\<forall>e \<in> set (getOutgoingEdges g v).
                dle (distances ?st2) (destId e) (z + getEdgeWeight e mode))"
          proof (cases "v = u")
            case True
            have "distanceAt (distances ?st2) u = Val x" using fold by (simp add: relax_inv_def)
            then have "z = x" using vz True by simp
            then show ?thesis using fold True by blast
          next
            case False
            then show ?thesis using fold vz unfolding relax_inv_def by blast
          qed
        next
          fix v w assume "predecessors ?st2 v = Some w"
          then show "\<exists>e \<in> set (getOutgoingEdges g w). destId e = v \<and>
             (\<exists>a b. distanceAt (distances ?st2) w = Val a \<and>
                    distanceAt (distances ?st2) v = Val b \<and> a + getEdgeWeight e mode \<le> b)"
            using fold unfolding relax_inv_def by blast
        qed
        then show ?thesis using step.IH [OF run2 vp gi nn] by simp
      qed
    qed
  qed
qed

lemma initDistances_other_aux:
  "v \<noteq> s \<Longrightarrow>
   (fold (\<lambda>node d. d(node_id node \<mapsto> (if node_id node = s then Val 0 else PosInf))) ns d) v
     = (if v \<in> set (map node_id ns) then Some PosInf else d v)"
  by (induction ns arbitrary: d) auto

lemma initDistances_other:
  "v \<noteq> s \<Longrightarrow> distanceAt (initDistances g s) v =
     (if v \<in> set (map node_id (getAllNodes g)) then PosInf else Val 0)"
  by (simp add: distanceAt_def initDistances_def initDistances_other_aux)

lemma no_outgoing_of_stranger:
  assumes gi: "graph_inv g" and v: "v \<notin> set (map node_id (getAllNodes g))"
  shows "getOutgoingEdges g v = []"
proof -
  have "map node_id (getAllNodes g) = map fst (nodes g)"
    using gi by (simp add: graph_inv_def getAllNodes_def)
  then have "v \<notin> set (map fst (nodes g))" using v by simp
  then have "\<forall>e \<in> set (edges g). sourceId e \<noteq> v"
    using graph_inv_edge_source [OF gi] by metis
  then show ?thesis by (simp add: outgoing_filter [OF gi] filter_empty_conv)
qed

lemma search_inv_initial:
  assumes gi: "graph_inv g"
  shows "search_inv g mode s (initialState g s)"
  unfolding search_inv_def initialState_sel
proof (intro conjI ballI allI impI)
  show "distanceAt (initDistances g s) s = Val 0" by (rule initDistances_source)
next
  fix nd assume "nd \<in> set [\<lparr>nodeId = s, distance = 0\<rparr>]"
  then have nd: "nd = \<lparr>nodeId = s, distance = 0\<rparr>" by simp
  show "0 \<le> distance nd" using nd by simp
  show "dle (initDistances g s) (nodeId nd) (distance nd)"
    using nd initDistances_source [of g s] by (simp add: dle_def)
next
  fix v y assume vy: "distanceAt (initDistances g s) v = Val y"
  show "\<lparr>nodeId = v, distance = y\<rparr> \<in> set [\<lparr>nodeId = s, distance = 0\<rparr>] \<or>
        (\<forall>e \<in> set (getOutgoingEdges g v).
            dle (initDistances g s) (destId e) (y + getEdgeWeight e mode))"
  proof (cases "v = s")
    case True
    then have "y = 0" using vy initDistances_source [of g s] by simp
    then show ?thesis using True by simp
  next
    case False
    then have "v \<notin> set (map node_id (getAllNodes g))"
      using vy initDistances_other [OF False, of g] by (auto split: if_splits)
    then show ?thesis using no_outgoing_of_stranger [OF gi] by simp
  qed
next
  fix v w :: string assume "(Map.empty :: string \<rightharpoonup> string) v = Some w"
  then show "\<exists>e \<in> set (getOutgoingEdges g w). destId e = v \<and>
      (\<exists>a b. distanceAt (initDistances g s) w = Val a \<and>
             distanceAt (initDistances g s) v = Val b \<and> a + getEdgeWeight e mode \<le> b)"
    by simp
qed

lemmas reconstructLoop_induct =
  reconstructLoop.raw_induct [rotated 1, consumes 1, case_names step]

lemma reconstructLoop_chain:
  assumes "reconstructLoop preds s v acc = Some r"
  shows "r \<noteq> [] \<Longrightarrow> \<exists>c. r = acc @ c \<and> pred_chain preds s c \<and> hd c = v"
  using assms
proof (induction rule: reconstructLoop_induct)
  case (step loop preds s v acc r)
  show ?case
  proof (cases "v = s")
    case True
    then have "r = acc @ [v]" using step.hyps by simp
    then show ?thesis using True by simp
  next
    case False
    then obtain w where w: "preds v = Some w" and run: "loop preds s w (acc @ [v]) = Some r"
      using step.hyps step.prems by (auto split: option.splits)
    obtain c where c: "r = (acc @ [v]) @ c" "pred_chain preds s c" "hd c = w"
      using step.IH [OF run step.prems] by blast
    then obtain rest where "c = w # rest" by (cases c) auto
    then have "pred_chain preds s (v # c)" using c(2) w False by simp
    then show ?thesis using c(1) by (intro exI [of _ "v # c"]) simp
  qed
qed

lemma path_nodes_snoc: "path_nodes s (es @ [e]) = path_nodes s es @ [destId e]"
  by (simp add: path_nodes_def)

lemma path_score_snoc: "path_score mode (es @ [e]) = path_score mode es + getEdgeWeight e mode"
  by (simp add: path_score_def)

lemma chain_realised:
  assumes gi: "graph_inv g"
    and s0: "distanceAt d s = Val 0"
    and P: "\<forall>v w. preds v = Some w \<longrightarrow>
        (\<exists>e \<in> set (getOutgoingEdges g w). destId e = v \<and>
           (\<exists>a b. distanceAt d w = Val a \<and> distanceAt d v = Val b \<and>
                  a + getEdgeWeight e mode \<le> b))"
  shows "pred_chain preds s c \<Longrightarrow>
     \<exists>es y. is_path g s es (hd c) \<and> path_nodes s es = rev c \<and>
        distanceAt d (hd c) = Val y \<and> path_score mode es \<le> y"
proof (induction c rule: induct_list012)
  case 1
  then show ?case by simp
next
  case (2 v)
  then have "v = s" by simp
  then have "is_path g s [] (hd [v]) \<and> path_nodes s [] = rev [v] \<and>
        distanceAt d (hd [v]) = Val 0 \<and> path_score mode [] \<le> 0"
    using s0 by (simp add: path_nodes_def path_score_def)
  then show ?case by blast
next
  case (3 v w rest)
  then have pv: "preds v = Some w" and ch: "pred_chain preds s (w # rest)" by simp_all
  obtain es y where es: "is_path g s es w" "path_nodes s es = rev (w # rest)"
      "distanceAt d w = Val y" "path_score mode es \<le> y"
    using "3.IH"(2) [OF ch] by auto
  obtain e a b where e: "e \<in> set (getOutgoingEdges g w)" "destId e = v"
      "distanceAt d w = Val a" "distanceAt d v = Val b" "a + getEdgeWeight e mode \<le> b"
    using P pv by blast
  have mem: "e \<in> set (getAllEdges g)" "sourceId e = w"
    using e(1) set_outgoing [OF gi] by (simp_all add: getAllEdges_def)
  have 1: "is_path g s (es @ [e]) v"
    using is_path_snoc [OF es(1) mem] e(2) by simp
  have 2: "path_nodes s (es @ [e]) = rev (v # w # rest)"
    using es(2) e(2) by (simp add: path_nodes_snoc)
  have 3: "path_score mode (es @ [e]) \<le> b"
    using es(3,4) e(3,5) by (simp add: path_score_snoc)
  show ?case using 1 2 3 e(4) by (intro exI [of _ "es @ [e]"] exI [of _ b]) simp
qed


lemma nonneg_demoGraph: "nonneg_weights demoGraph"
  by (simp add: nonneg_weights_def getAllEdges_def demoGraph_eq)

lemma demo_search_time:
  "\<exists>d p q. searchLoop firstMin demoGraph ''DC'' TIME (initialState demoGraph ''NYC'')
     = Some \<lparr>distances = d, predecessors = p, pq = q\<rparr> \<and> d ''DC'' = Some (Val 5)
       \<and> p ''DC'' = Some ''PHL'' \<and> p ''PHL'' = Some ''NYC''"
  apply (simp add: initialState_def initDistances_def getAllNodes_def demo_nodes)
  apply (subst searchLoop.simps)
  apply (simp add: Let_def relaxEdge_def distanceAt_def getEdgeWeight_def DISTANCE_def TIME_def)
  apply (subst searchLoop.simps)
  apply (simp add: Let_def relaxEdge_def distanceAt_def getEdgeWeight_def DISTANCE_def TIME_def)
  apply (subst searchLoop.simps)
  apply (simp add: Let_def relaxEdge_def distanceAt_def getEdgeWeight_def DISTANCE_def TIME_def)
  apply (subst searchLoop.simps)
  apply (simp add: Let_def relaxEdge_def distanceAt_def getEdgeWeight_def DISTANCE_def TIME_def)
  done

lemma demo_query_time:
  "findShortestPath firstMin demoGraph ''NYC'' ''DC'' TIME =
     Some (Inr \<lparr>path = [''NYC'', ''PHL'', ''DC''], totalDistance = 378, totalTime = 5,
                totalCost = 60, found = True\<rparr>)"
proof -
  obtain d p q where st: "searchLoop firstMin demoGraph ''DC'' TIME (initialState demoGraph ''NYC'')
     = Some \<lparr>distances = d, predecessors = p, pq = q\<rparr>" "d ''DC'' = Some (Val 5)"
       "p ''DC'' = Some ''PHL''" "p ''PHL'' = Some ''NYC''"
    using demo_search_time by blast
  have rec: "reconstructPath p ''NYC'' ''DC'' = Some [''NYC'', ''PHL'', ''DC'']"
    unfolding reconstructPath_def
    apply (subst reconstructLoop.simps, simp add: st)
    apply (subst reconstructLoop.simps, simp add: st)
    apply (subst reconstructLoop.simps, simp add: st)
    done
  show ?thesis
    by (simp add: findShortestPath_def getNode_def demo_nodes
          st distanceAt_def buildResult_def rec)
qed



section \<open>The predecessor chain of a search is never broken\<close>

lemma relaxEdge_chain:
  assumes inv: "chain_inv g s st" and gi: "graph_inv g"
    and u: "u \<in> set (map fst (nodes g))" "distanceAt (distances st) u \<noteq> PosInf"
    and e: "e \<in> set (getOutgoingEdges g u)"
  shows "chain_inv g s (relaxEdge mode \<lparr>nodeId = u, distance = x\<rparr> st e) \<and>
         distanceAt (distances (relaxEdge mode \<lparr>nodeId = u, distance = x\<rparr> st e)) u \<noteq> PosInf"
proof (cases "dbl_less (Val (x + getEdgeWeight e mode)) (distanceAt (distances st) (destId e))")
  case False
  then have "relaxEdge mode \<lparr>nodeId = u, distance = x\<rparr> st e = st"
    by (simp add: relaxEdge_def Let_def)
  then show ?thesis using inv u by simp
next
  case True
  define n where "n = destId e"
  define dist where "dist = x + getEdgeWeight e mode"
  define d' where "d' = (distances st)(n \<mapsto> Val dist)"
  define st' where "st' = st\<lparr>distances := d', predecessors := (predecessors st)(n \<mapsto> u),
                              pq := pq st @ [\<lparr>nodeId = n, distance = dist\<rparr>]\<rparr>"
  have st': "relaxEdge mode \<lparr>nodeId = u, distance = x\<rparr> st e = st'"
    using True by (simp add: relaxEdge_def st'_def d'_def n_def dist_def Let_def)
  have sel: "distances st' = d'" "pq st' = pq st @ [\<lparr>nodeId = n, distance = dist\<rparr>]"
    "predecessors st' = (predecessors st)(n \<mapsto> u)"
    by (simp_all add: st'_def)
  have "e \<in> set (edges g)" using e set_outgoing [OF gi] by simp
  then have n: "n \<in> set (map fst (nodes g))"
    using graph_inv_edge_dest [OF gi] by (simp add: n_def)
  have fin: "distanceAt d' v \<noteq> PosInf" if "distanceAt (distances st) v \<noteq> PosInf" for v
    using that by (simp add: d'_def distanceAt_upd)
  have finn: "distanceAt d' n \<noteq> PosInf" by (simp add: d'_def distanceAt_upd)
  have 1: "\<forall>nd \<in> set (pq st'). nodeId nd \<in> set (map fst (nodes g)) \<and>
             distanceAt d' (nodeId nd) \<noteq> PosInf"
  proof
    fix nd assume "nd \<in> set (pq st')"
    then have "nd \<in> set (pq st) \<or> nd = \<lparr>nodeId = n, distance = dist\<rparr>" by (auto simp: sel)
    then show "nodeId nd \<in> set (map fst (nodes g)) \<and> distanceAt d' (nodeId nd) \<noteq> PosInf"
    proof
      assume "nd \<in> set (pq st)"
      then show ?thesis using inv fin unfolding chain_inv_def by blast
    next
      assume "nd = \<lparr>nodeId = n, distance = dist\<rparr>"
      then show ?thesis using n finn by simp
    qed
  qed
  have 2: "\<forall>v w. predecessors st' v = Some w \<longrightarrow>
             w \<in> set (map fst (nodes g)) \<and> distanceAt d' w \<noteq> PosInf"
  proof (intro allI impI)
    fix v w assume p: "predecessors st' v = Some w"
    show "w \<in> set (map fst (nodes g)) \<and> distanceAt d' w \<noteq> PosInf"
    proof (cases "v = n")
      case True
      then have "w = u" using p by (simp add: sel)
      then show ?thesis using u fin by simp
    next
      case False
      then have "predecessors st v = Some w" using p by (simp add: sel)
      then show ?thesis using inv fin unfolding chain_inv_def by blast
    qed
  qed
  have 3: "\<forall>v \<in> set (map fst (nodes g)). v \<noteq> s \<longrightarrow> distanceAt d' v \<noteq> PosInf \<longrightarrow>
             predecessors st' v \<noteq> None"
  proof (intro ballI impI)
    fix v assume v: "v \<in> set (map fst (nodes g))" "v \<noteq> s" "distanceAt d' v \<noteq> PosInf"
    show "predecessors st' v \<noteq> None"
    proof (cases "v = n")
      case True
      then show ?thesis by (simp add: sel)
    next
      case False
      then have "distanceAt (distances st) v \<noteq> PosInf"
        using v(3) by (simp add: d'_def distanceAt_upd)
      then have "predecessors st v \<noteq> None"
        using inv v(1,2) unfolding chain_inv_def by blast
      then show ?thesis using False by (simp add: sel)
    qed
  qed
  have "chain_inv g s st'"
    unfolding chain_inv_def sel using 1 2 3 by (simp add: sel)
  then show ?thesis unfolding st' using fin [OF u(2)] by (simp add: sel)
qed

lemma relax_fold_chain:
  assumes gi: "graph_inv g" and u: "u \<in> set (map fst (nodes g))"
  shows "chain_inv g s st \<Longrightarrow> distanceAt (distances st) u \<noteq> PosInf \<Longrightarrow>
     set es \<subseteq> set (getOutgoingEdges g u) \<Longrightarrow>
     chain_inv g s (foldl (relaxEdge mode \<lparr>nodeId = u, distance = x\<rparr>) st es)"
proof (induction es arbitrary: st)
  case Nil
  then show ?case by simp
next
  case (Cons e es)
  have e: "e \<in> set (getOutgoingEdges g u)" and sub: "set es \<subseteq> set (getOutgoingEdges g u)"
    using Cons.prems(3) by simp_all
  note step = relaxEdge_chain [OF Cons.prems(1) gi u Cons.prems(2) e, of mode x]
  have "chain_inv g s
      (foldl (relaxEdge mode \<lparr>nodeId = u, distance = x\<rparr>)
         (relaxEdge mode \<lparr>nodeId = u, distance = x\<rparr> st e) es)"
    using Cons.IH [OF _ _ sub] step by blast
  then show ?case by simp
qed

lemma search_loop_chain:
  assumes run: "searchLoop pick g t mode st = Some st'"
  shows "valid_pick pick \<Longrightarrow> graph_inv g \<Longrightarrow> chain_inv g s st \<Longrightarrow> chain_inv g s st'"
  using run
proof (induction rule: searchLoop_induct)
  case (step loop pick g t mode st st')
  note vp = step.prems(1) and gi = step.prems(2) and inv = step.prems(3)
  show ?case
  proof (cases "pq st = []")
    case True
    then show ?thesis using step.hyps inv by simp
  next
    case False
    define i where "i = pick (pq st)"
    define cur where "cur = pq st ! i"
    define st1 where "st1 = st\<lparr>pq := take i (pq st) @ drop (Suc i) (pq st)\<rparr>"
    have i: "i < length (pq st)"
      using vp False unfolding valid_pick_def i_def by blast
    have cur_mem: "cur \<in> set (pq st)" using i by (simp add: cur_def)
    have cur_eq: "cur = \<lparr>nodeId = nodeId cur, distance = distance cur\<rparr>" by simp
    have inv1: "chain_inv g s st1"
      using inv set_remove_nth_subset [of i "pq st"]
      unfolding chain_inv_def st1_def by auto
    have u: "nodeId cur \<in> set (map fst (nodes g))"
        "distanceAt (distances st1) (nodeId cur) \<noteq> PosInf"
      using inv cur_mem unfolding chain_inv_def st1_def by auto
    have body: "(if nodeId cur = t then Some st1
           else if dbl_less (distanceAt (distances st1) (nodeId cur)) (Val (distance cur))
             then loop pick g t mode st1
           else loop pick g t mode
                  (foldl (relaxEdge mode cur) st1 (getOutgoingEdges g (nodeId cur)))) = Some st'"
      unfolding i_def cur_def st1_def
      using step.hyps False by (simp only: if_False Let_def)
    have inv2: "chain_inv g s (foldl (relaxEdge mode cur) st1 (getOutgoingEdges g (nodeId cur)))"
      using relax_fold_chain [OF gi u(1) inv1 u(2), of "getOutgoingEdges g (nodeId cur)" mode
          "distance cur"] cur_eq by simp
    show ?thesis
    proof (cases "nodeId cur = t")
      case True
      then show ?thesis using body inv1 by simp
    next
      case nt: False
      show ?thesis
      proof (cases "dbl_less (distanceAt (distances st1) (nodeId cur)) (Val (distance cur))")
        case True
        then have "loop pick g t mode st1 = Some st'" using body nt by simp
        then show ?thesis using step.IH vp gi inv1 by blast
      next
        case False
        then have "loop pick g t mode
             (foldl (relaxEdge mode cur) st1 (getOutgoingEdges g (nodeId cur))) = Some st'"
          using body nt by simp
        then show ?thesis using step.IH vp gi inv2 by blast
      qed
    qed
  qed
qed

lemma chain_inv_initial:
  assumes gi: "graph_inv g" and src: "getNode g s \<noteq> None"
  shows "chain_inv g s (initialState g s)"
proof -
  have s: "s \<in> set (map fst (nodes g))"
    using src by (simp add: getNode_def map_of_None_keys)
  have ids: "map node_id (getAllNodes g) = map fst (nodes g)"
    using gi by (simp add: graph_inv_def getAllNodes_def)
  have 1: "\<forall>nd \<in> set (pq (initialState g s)). nodeId nd \<in> set (map fst (nodes g)) \<and>
      distanceAt (distances (initialState g s)) (nodeId nd) \<noteq> PosInf"
    using s by (simp add: initDistances_source)
  have 3: "\<forall>v \<in> set (map fst (nodes g)). v \<noteq> s \<longrightarrow>
      distanceAt (distances (initialState g s)) v \<noteq> PosInf \<longrightarrow>
      predecessors (initialState g s) v \<noteq> None"
  proof (intro ballI impI)
    fix v assume v: "v \<in> set (map fst (nodes g))" "v \<noteq> s"
      "distanceAt (distances (initialState g s)) v \<noteq> PosInf"
    have "distanceAt (initDistances g s) v = PosInf"
      using initDistances_other [OF v(2), of g] v(1) ids by simp
    then show "predecessors (initialState g s) v \<noteq> None" using v(3) by simp
  qed
  show ?thesis unfolding chain_inv_def using 1 3 by simp
qed

lemma reconstructLoop_nonempty:
  assumes "reconstructLoop preds s v acc = Some r"
  shows "(\<forall>v w. preds v = Some w \<longrightarrow> w \<in> K \<and> distanceAt d w \<noteq> PosInf) \<Longrightarrow>
     (\<forall>v \<in> K. v \<noteq> s \<longrightarrow> distanceAt d v \<noteq> PosInf \<longrightarrow> preds v \<noteq> None) \<Longrightarrow>
     v \<in> K \<Longrightarrow> distanceAt d v \<noteq> PosInf \<Longrightarrow> r \<noteq> []"
  using assms
proof (induction rule: reconstructLoop_induct)
  case (step loop preds s v acc r)
  show ?case
  proof (cases "v = s")
    case True
    then show ?thesis using step.hyps by auto
  next
    case False
    then have "preds v \<noteq> None" using step.prems by blast
    then obtain w where w: "preds v = Some w" by auto
    then have run: "loop preds s w (acc @ [v]) = Some r"
      using step.hyps False by simp
    have "w \<in> K" "distanceAt d w \<noteq> PosInf" using step.prems(1) w by blast+
    then show ?thesis using step.IH [OF run step.prems(1,2)] by blast
  qed
qed

text \<open>
  On a store that satisfies its invariants no query reads past the end of the path
  vector: a search that ends with a finite distance for the destination has left a
  predecessor link at every node of the chain, so \<open>reconstructPath\<close> does not come back
  with the empty path.
\<close>

lemma search_never_faults:
  assumes gi: "graph_inv g" and vp: "valid_pick pick"
  shows "findShortestPath pick g s t mode \<noteq> Some (Inl f)"
proof
  assume res: "findShortestPath pick g s t mode = Some (Inl f)"
  then have nodes: "getNode g s \<noteq> None" "getNode g t \<noteq> None"
    by (auto simp: findShortestPath_def split: if_splits)
  then obtain st where run: "searchLoop pick g t mode (initialState g s) = Some st"
    and fin: "distanceAt (distances st) t \<noteq> PosInf"
    and build: "buildResult g (predecessors st) s t = Some (Inl f)"
    using res by (auto simp: findShortestPath_def split: option.splits if_splits)
  then have empty: "reconstructPath (predecessors st) s t = Some []"
    by (auto simp: buildResult_def split: option.splits if_splits prod.splits)
  then have loop: "reconstructLoop (predecessors st) s t [] = Some []"
    by (auto simp: reconstructPath_def)
  have inv: "chain_inv g s st"
    using search_loop_chain [OF run vp gi chain_inv_initial [OF gi nodes(1)]] .
  have t: "t \<in> set (map fst (nodes g))"
    using nodes(2) by (simp add: getNode_def map_of_None_keys)
  have "[] \<noteq> ([] :: string list)"
    using reconstructLoop_nonempty [OF loop, of "set (map fst (nodes g))" "distances st"]
      inv t fin unfolding chain_inv_def by blast
  then show False by simp
qed

section \<open>The totals on a graph without parallel edges\<close>

lemma find_the_edge:
  assumes gi: "graph_inv g" and np: "no_parallel_edges g" and e: "e \<in> set (getAllEdges g)"
  shows "find (\<lambda>x. destId x = destId e) (getOutgoingEdges g (sourceId e)) = Some e"
proof (cases "find (\<lambda>x. destId x = destId e) (getOutgoingEdges g (sourceId e))")
  case None
  have "e \<in> set (getOutgoingEdges g (sourceId e))"
    using e set_outgoing [OF gi] by (simp add: getAllEdges_def)
  then show ?thesis using None by (auto simp: find_None_iff)
next
  case (Some x)
  then have "x \<in> set (getOutgoingEdges g (sourceId e))" "destId x = destId e"
    by (auto simp: find_Some_iff)
  then have "x \<in> set (getAllEdges g)" "sourceId x = sourceId e" "destId x = destId e"
    using set_outgoing [OF gi] by (simp_all add: getAllEdges_def)
  then have "x = e" using np e unfolding no_parallel_edges_def by blast
  then show ?thesis using Some by simp
qed

lemma totals_along_path:
  assumes gi: "graph_inv g" and np: "no_parallel_edges g"
  shows "is_path g u es v \<Longrightarrow>
     accumulateTotals g (path_nodes u es) (a, b, c) =
       (a + sum_list (map weight es), b + sum_list (map timeWeight es),
        c + sum_list (map costWeight es))"
proof (induction es arbitrary: u a b c)
  case Nil
  then show ?case by (simp add: path_nodes_def)
next
  case (Cons e es)
  then have e: "e \<in> set (getAllEdges g)" "sourceId e = u" and rest: "is_path g (destId e) es v"
    by simp_all
  have f: "find (\<lambda>x. destId x = destId e) (getOutgoingEdges g u) = Some e"
    using find_the_edge [OF gi np e(1)] e(2) by simp
  have "accumulateTotals g (path_nodes u (e # es)) (a, b, c) =
        accumulateTotals g (path_nodes (destId e) es)
          (a + weight e, b + timeWeight e, c + costWeight e)"
    using f by (simp add: path_nodes_def)
  then show ?case using Cons.IH [OF rest] by (simp add: add.assoc)
qed

text \<open>
  When no two stored edges share both source and destination, the three totals of a
  found result are the sums of the raw weights over the edges of the path that the
  returned keys spell out, whatever the mode of the search.
\<close>

lemma totals_on_simple_graph:
  assumes gi: "graph_inv g" and np: "no_parallel_edges g"
    and res: "findShortestPath pick g s t mode = Some (Inr r)" and fnd: "found r"
    and es: "is_path g s es t" "path_nodes s es = path r"
  shows "totalDistance r = sum_list (map weight es) \<and>
         totalTime r = sum_list (map timeWeight es) \<and>
         totalCost r = sum_list (map costWeight es)"
proof -
  obtain preds where build: "buildResult g preds s t = Some (Inr r)"
    using res fnd
    by (auto simp: findShortestPath_def notFound_def split: if_splits option.splits)
  then obtain p d ti c where p: "p \<noteq> []"
      and acc: "accumulateTotals g p (0, 0, 0) = (d, ti, c)"
      and r: "r = \<lparr>path = p, totalDistance = d, totalTime = ti, totalCost = c, found = True\<rparr>"
    by (auto simp: buildResult_def split: option.splits if_splits prod.splits)
  have "path_nodes s es = p" using es(2) r by simp
  then have "accumulateTotals g p (0, 0, 0) =
      (sum_list (map weight es), sum_list (map timeWeight es), sum_list (map costWeight es))"
    using totals_along_path [OF gi np es(1), of 0 0 0] by simp
  then show ?thesis using acc r by simp
qed

end
